theory Spec2Isabelle
  imports Main "HOL-Library.Log_Nat"
begin

section \<open>JavaScript numbers\<close>

text \<open>
  The engine computes with JavaScript numbers, that is IEEE 754 binary64 values. A finite
  double is modelled by the rational it denotes, and every arithmetic operation is the exact
  operation followed by rounding to the nearest value with a 53-bit significand, ties to
  even (\<open>fl\<close>). The exponent range is not bounded, so \<open>fl\<close> is the rounding of the
  hardware only on results that are 0 or of magnitude between \<open>2\<^sup>-\<^sup>1\<^sup>0\<^sup>2\<^sup>2\<close> and \<open>2\<^sup>1\<^sup>0\<^sup>2\<^sup>3\<close>:
  every general statement below about a computation with \<open>fl\<close> bounds its inputs so that
  all results stay in that range. A quotient with divisor zero (JavaScript's \<open>NaN\<close> or an
  infinity) is \<open>None\<close>.
\<close>

definition pow2 :: "int \<Rightarrow> rat" where
  "pow2 k = (if 0 \<le> k then 2 ^ nat k else 1 / 2 ^ nat (- k))"

text \<open>The binary exponent \<open>\<lfloor>log\<^sub>2 \<bar>x\<bar>\<rfloor>\<close> of a non-zero rational.\<close>

definition expo :: "rat \<Rightarrow> int" where
  "expo x = (if 1 \<le> \<bar>x\<bar> then bitlen \<lfloor>\<bar>x\<bar>\<rfloor> - 1
             else - int (ceillog2 (nat \<lceil>1 / \<bar>x\<bar>\<rceil>)))"

definition round_half_even :: "rat \<Rightarrow> int" where
  "round_half_even q =
     (let f = \<lfloor>q\<rfloor>; d = q - of_int f in
      if d < 1 / 2 then f else if 1 / 2 < d then f + 1 else if even f then f else f + 1)"

definition ulp :: "rat \<Rightarrow> rat" where
  "ulp x = pow2 (expo x - 52)"

definition fl :: "rat \<Rightarrow> rat" where
  "fl x = (if x = 0 then 0 else of_int (round_half_even (x / ulp x)) * ulp x)"

definition js_mul :: "rat \<Rightarrow> rat \<Rightarrow> rat" where
  "js_mul a b = fl (a * b)"

definition js_add :: "rat \<Rightarrow> rat \<Rightarrow> rat" where
  "js_add a b = fl (a + b)"

definition js_div :: "rat \<Rightarrow> rat \<Rightarrow> rat option" where
  "js_div a b = (if b = 0 then None else Some (fl (a / b)))"

text \<open>A decimal literal of the source, such as \<open>0.4\<close>, denotes the double nearest to it.\<close>

definition js_lit :: "rat \<Rightarrow> rat" where
  "js_lit r = fl r"

text \<open>\<open>Math.floor\<close> on a finite number.\<close>

definition Math_floor :: "rat \<Rightarrow> int" where
  "Math_floor x = \<lfloor>x\<rfloor>"

text \<open>The unit roundoff of binary64: half the distance from 1 to the next double.\<close>

definition unit_roundoff :: rat where
  "unit_roundoff = 1 / 2 ^ 53"

text \<open>
  The range in which \<open>fl\<close> is the rounding of the hardware: zero, or a magnitude between
  the smallest normal double \<open>2\<^sup>-\<^sup>1\<^sup>0\<^sup>2\<^sup>2\<close> and \<open>2\<^sup>1\<^sup>0\<^sup>2\<^sup>3\<close>.
\<close>

definition normal_range :: "rat \<Rightarrow> bool" where
  "normal_range x = (x = 0 \<or> (1 / 2 ^ 1022 \<le> \<bar>x\<bar> \<and> \<bar>x\<bar> \<le> 2 ^ 1023))"

section \<open>Strings and regular expressions\<close>

text \<open>
  Strings are lists of 8-bit characters. \<open>toLowerCase\<close> maps the letters A to Z to a to z;
  \<open>js_includes s p\<close> is the substring test \<open>s.includes(p)\<close>.
\<close>

definition toLowerCase_char :: "char \<Rightarrow> char" where
  "toLowerCase_char c =
     (if 65 \<le> (of_char c :: nat) \<and> (of_char c :: nat) \<le> 90
      then char_of ((of_char c :: nat) + 32) else c)"

definition toLowerCase :: "string \<Rightarrow> string" where
  "toLowerCase s = map toLowerCase_char s"

fun starts_with :: "string \<Rightarrow> string \<Rightarrow> bool" where
  "starts_with s [] = True"
| "starts_with [] (p # ps) = False"
| "starts_with (c # cs) (p # ps) = (c = p \<and> starts_with cs ps)"

fun js_includes :: "string \<Rightarrow> string \<Rightarrow> bool" where
  "js_includes [] p = (p = [])"
| "js_includes (c # cs) p = (starts_with (c # cs) p \<or> js_includes cs p)"

text \<open>
  The regular expressions of the source are values of \<open>regex\<close>. \<open>matches r (s, caps)\<close>
  lists, in the order a backtracking matcher tries them, the ways \<open>r\<close> can match a prefix
  of \<open>s\<close>: each is the input left over together with the capture groups closed so far.
  Quantifiers are greedy (the longer alternative comes first), and an iteration of a star
  has to consume input.
\<close>

datatype regex =
    Atom "char \<Rightarrow> bool"
  | Eps
  | Seq regex regex
  | Alt regex regex
  | Star regex
  | Group regex

type_synonym mstate = "string \<times> string list"

function matches :: "regex \<Rightarrow> mstate \<Rightarrow> mstate list" where
  "matches (Atom p) (s, caps) =
     (case s of [] \<Rightarrow> [] | c # cs \<Rightarrow> if p c then [(cs, caps)] else [])"
| "matches Eps (s, caps) = [(s, caps)]"
| "matches (Seq a b) (s, caps) = concat (map (\<lambda>st. matches b st) (matches a (s, caps)))"
| "matches (Alt a b) (s, caps) = matches a (s, caps) @ matches b (s, caps)"
| "matches (Star r) (s, caps) =
     concat (map (\<lambda>st. matches (Star r) st)
                 (filter (\<lambda>st. length (fst st) < length s) (matches r (s, caps))))
     @ [(s, caps)]"
| "matches (Group r) (s, caps) =
     map (\<lambda>st. (fst st, snd st @ [take (length s - length (fst st)) s])) (matches r (s, caps))"
  by pat_completeness auto
termination
  by (relation "inv_image (less_than <*lex*> less_than) (\<lambda>(r, st). (size r, length (fst st)))")
     auto

declare matches.simps [simp del]

text \<open>
  \<open>search r s\<close> is \<open>s.match(r)\<close> for a pattern without the \<open>g\<close> flag, and one call of
  \<open>r.exec\<close>: the leftmost match, as the list of its groups (group 0, the whole match,
  first) and the input after the match.
\<close>

fun search :: "regex \<Rightarrow> string \<Rightarrow> (string list \<times> string) option" where
  "search r [] =
     (case matches r ([], []) of
        st # _ \<Rightarrow> Some ([] # snd st, fst st)
      | [] \<Rightarrow> None)"
| "search r (c # cs) =
     (case matches r (c # cs, []) of
        st # _ \<Rightarrow> Some (take (length (c # cs) - length (fst st)) (c # cs) # snd st, fst st)
      | [] \<Rightarrow> search r cs)"

text \<open>
  The loop \<open>while ((match = r.exec(html)) !== null)\<close> over a pattern with the \<open>g\<close> flag:
  the successive matches, each search starting where the previous match ended. Every
  pattern of the source consumes at least one character, so the loop advances.
\<close>

function exec_all :: "regex \<Rightarrow> string \<Rightarrow> string list list" where
  "exec_all r s =
     (case search r s of
        None \<Rightarrow> []
      | Some (groups, rest) \<Rightarrow>
          if length rest < length s then groups # exec_all r rest else [groups])"
  by pat_completeness auto
termination
  by (relation "measure (\<lambda>(r, s). length s)") auto

declare exec_all.simps [simp del]

text \<open>\<open>match[i]\<close> of a match result: group \<open>i\<close>, when the pattern has one.\<close>

definition group :: "nat \<Rightarrow> (string list \<times> string) option \<Rightarrow> string option" where
  "group i m =
     (case m of
        None \<Rightarrow> None
      | Some (groups, rest) \<Rightarrow> if i < length groups then Some (groups ! i) else None)"

definition is_digit :: "char \<Rightarrow> bool" where
  "is_digit c = (48 \<le> (of_char c :: nat) \<and> (of_char c :: nat) \<le> 57)"

text \<open>
  \<open>\s\<close>: space, tab, line feed, vertical tab, form feed, carriage return and, of the
  characters up to 255, the no-break space.
\<close>

definition is_space :: "char \<Rightarrow> bool" where
  "is_space c = (of_char c \<in> {32, 9, 10, 11, 12, 13, 160 :: nat})"

fun seqs :: "regex list \<Rightarrow> regex" where
  "seqs [] = Eps"
| "seqs [r] = r"
| "seqs (r # rs) = Seq r (seqs rs)"

text \<open>A literal, read with and without the \<open>i\<close> flag.\<close>

definition lit_i :: "string \<Rightarrow> regex" where
  "lit_i w = seqs (map (\<lambda>x. Atom (\<lambda>c. toLowerCase_char c = toLowerCase_char x)) w)"

definition lit :: "string \<Rightarrow> regex" where
  "lit w = seqs (map (\<lambda>x. Atom (\<lambda>c. c = x)) w)"

definition Plus :: "regex \<Rightarrow> regex" where
  "Plus r = Seq r (Star r)"

definition Opt :: "regex \<Rightarrow> regex" where
  "Opt r = Alt r Eps"

definition digit :: regex where
  "digit = Atom is_digit"

definition space :: regex where
  "space = Atom is_space"

definition double_quote :: char where
  "double_quote = CHR 0x22"

text \<open>\<open>[^...]\<close>: any character outside the listed ones.\<close>

definition none_of :: "string \<Rightarrow> regex" where
  "none_of cs = Atom (\<lambda>c. c \<notin> set cs)"

text \<open>
  Two syntactic properties of a pattern: \<open>consumes r\<close>, every match of \<open>r\<close> takes at least
  one character; \<open>groups_consume r\<close>, every capture group of \<open>r\<close> has such a body.
\<close>

fun consumes :: "regex \<Rightarrow> bool" where
  "consumes (Atom p) = True"
| "consumes Eps = False"
| "consumes (Seq a b) = (consumes a \<or> consumes b)"
| "consumes (Alt a b) = (consumes a \<and> consumes b)"
| "consumes (Star r) = False"
| "consumes (Group r) = consumes r"

fun groups_consume :: "regex \<Rightarrow> bool" where
  "groups_consume (Atom p) = True"
| "groups_consume Eps = True"
| "groups_consume (Seq a b) = (groups_consume a \<and> groups_consume b)"
| "groups_consume (Alt a b) = (groups_consume a \<and> groups_consume b)"
| "groups_consume (Star r) = groups_consume r"
| "groups_consume (Group r) = (consumes r \<and> groups_consume r)"

text \<open>
  \<open>parseInt(s, 10)\<close> on a string of digits: \<open>None\<close> is \<open>NaN\<close> (no leading digit). The
  value is exact (JavaScript rounds beyond \<open>2\<^sup>5\<^sup>3\<close>).
\<close>

definition digit_value :: "char \<Rightarrow> int" where
  "digit_value c = int (of_char c) - 48"

definition parseInt :: "string \<Rightarrow> int option" where
  "parseInt s =
     (case takeWhile is_digit s of
        [] \<Rightarrow> None
      | ds \<Rightarrow> Some (foldl (\<lambda>n c. 10 * n + digit_value c) 0 ds))"

text \<open>\<open>s.replace(/,/g, '')\<close>\<close>

definition remove_commas :: "string \<Rightarrow> string" where
  "remove_commas s = filter (\<lambda>c. c \<noteq> CHR '','') s"

section \<open>Headcount estimator\<close>

text \<open>
  \<open>LinkedInHeadcountFetcher\<close>. The two kinds of page it requests are the environment: for
  a URL, \<open>companyPage\<close> is the body of a successful response (\<open>None\<close> when the response
  is not \<open>ok\<close> or the request throws, which \<open>scrapeCompanyPage\<close> treats alike), and
  \<open>peopleSearch company keyword\<close> is the same for the people search of \<open>keyword\<close> at
  \<open>company\<close>.
\<close>

record linkedin_pages =
  companyPage :: "string \<Rightarrow> string option"
  peopleSearch :: "string \<Rightarrow> string \<Rightarrow> string option"

datatype confidence_tier = High | Medium | Low

text \<open>\<open>HeadcountEstimate\<close> (its \<open>timestamp\<close>, the wall clock, is left out).\<close>

record HeadcountEstimate =
  totalEmployees :: "int option"
  engineeringCount :: "int option"
  hc_confidence :: confidence_tier
  hc_source :: string

text \<open>Truthiness of an optional number: present, and neither 0 nor \<open>NaN\<close>.\<close>

definition truthy_num :: "int option \<Rightarrow> bool" where
  "truthy_num x = (case x of None \<Rightarrow> False | Some n \<Rightarrow> n \<noteq> 0)"

text \<open>\<open>(?:employees|associates)\<close> and \<open>\d{1,3}(?:,\d{3})*\<close>, both under the \<open>i\<close> flag.\<close>

definition employees_or_associates :: regex where
  "employees_or_associates = Alt (lit_i ''employees'') (lit_i ''associates'')"

definition grouped_number :: regex where
  "grouped_number =
     Seq (Seq digit (Opt (Seq digit (Opt digit)))) (Star (seqs [lit '','', digit, digit, digit]))"

text \<open>
  The \<open>patterns\<close> of \<open>scrapeCompanyPage\<close>, in the order of the source:
  \<^verbatim>\<open>/(\d{1,3}(?:,\d{3})*)\s+(?:employees|associates)/i\<close>,
  \<^verbatim>\<open>/(\d+)\s+(?:employees|associates)/i\<close> and
  \<^verbatim>\<open>/"followerCount"\s*:\s*(\d+)/i\<close>; then the range pattern
  \<^verbatim>\<open>/(\d+)-(\d+)\s+(?:employees|associates)/i\<close>.
\<close>

definition employee_patterns :: "regex list" where
  "employee_patterns =
     [seqs [Group grouped_number, Plus space, employees_or_associates],
      seqs [Group (Plus digit), Plus space, employees_or_associates],
      seqs [lit_i (double_quote # ''followerCount'' @ [double_quote]), Star space, lit '':'',
            Star space, Group (Plus digit)]]"

definition rangePattern :: regex where
  "rangePattern =
     seqs [Group (Plus digit), lit ''-'', Group (Plus digit), Plus space, employees_or_associates]"

text \<open>
  The loop \<open>for (const pattern of patterns)\<close> shared by \<open>scrapeCompanyPage\<close> and
  \<open>searchPeopleCount\<close>: the first pattern that matches with a count passing the sanity
  check \<open>count > 0 && count < bound\<close> decides.
\<close>

fun count_from_patterns :: "regex list \<Rightarrow> string \<Rightarrow> int \<Rightarrow> int option" where
  "count_from_patterns [] html bound = None"
| "count_from_patterns (pattern # patterns) html bound =
     (case group 1 (search pattern html) of
        None \<Rightarrow> count_from_patterns patterns html bound
      | Some g1 \<Rightarrow>
          (case parseInt (remove_commas g1) of
             None \<Rightarrow> count_from_patterns patterns html bound
           | Some count \<Rightarrow>
               if count > 0 \<and> count < bound then Some count
               else count_from_patterns patterns html bound))"

text \<open>
  The range branch: \<open>Math.floor((min + max) / 2)\<close> of the two numbers of the first match
  of the range pattern.
\<close>

definition range_midpoint :: "string \<Rightarrow> int option" where
  "range_midpoint html =
     (case search rangePattern html of
        None \<Rightarrow> None
      | Some m \<Rightarrow>
          (case (parseInt (the (group 1 (Some m))), parseInt (the (group 2 (Some m)))) of
             (Some mn, Some mx) \<Rightarrow> Some (Math_floor ((of_int mn + of_int mx) / 2))
           | _ \<Rightarrow> None))"

definition scrapeCompanyPage :: "linkedin_pages \<Rightarrow> string \<Rightarrow> int option" where
  "scrapeCompanyPage net url =
     (case companyPage net url of
        None \<Rightarrow> None
      | Some html \<Rightarrow>
          (case count_from_patterns employee_patterns html 1000000 of
             Some count \<Rightarrow> Some count
           | None \<Rightarrow> range_midpoint html))"

text \<open>
  The \<open>patterns\<close> of \<open>searchPeopleCount\<close>:
  \<^verbatim>\<open>/About\s+(\d{1,3}(?:,\d{3})*)\s+results?/i\<close>,
  \<^verbatim>\<open>/(\d{1,3}(?:,\d{3})*)\s+results?/i\<close>,
  \<^verbatim>\<open>/of\s+(\d{1,3}(?:,\d{3})*)\s+results?/i\<close> and
  \<^verbatim>\<open>/"totalDisplayCount"\s*:\s*(\d+)/i\<close>.
\<close>

definition results_word :: regex where
  "results_word = Seq (lit_i ''result'') (Opt (lit_i ''s''))"

definition result_patterns :: "regex list" where
  "result_patterns =
     [seqs [lit_i ''About'', Plus space, Group grouped_number, Plus space, results_word],
      seqs [Group grouped_number, Plus space, results_word],
      seqs [lit_i ''of'', Plus space, Group grouped_number, Plus space, results_word],
      seqs [lit_i (double_quote # ''totalDisplayCount'' @ [double_quote]), Star space, lit '':'',
            Star space, Group (Plus digit)]]"

definition searchPeopleCount :: "linkedin_pages \<Rightarrow> string \<Rightarrow> string \<Rightarrow> int" where
  "searchPeopleCount net company keyword =
     (case peopleSearch net company keyword of
        None \<Rightarrow> 0
      | Some html \<Rightarrow>
          (case count_from_patterns result_patterns html 100000 of
             Some count \<Rightarrow> count
           | None \<Rightarrow> 0))"

definition engineeringKeywords :: "string list" where
  "engineeringKeywords =
     [''engineer'', ''software engineer'', ''engineering'', ''developer'', ''software developer'']"

text \<open>The loop over the keywords keeps \<open>(maxEngineerCount, bestKeyword)\<close>.\<close>

fun keyword_loop ::
  "linkedin_pages \<Rightarrow> string \<Rightarrow> string list \<Rightarrow> int \<times> string \<Rightarrow> int \<times> string" where
  "keyword_loop net company [] acc = acc"
| "keyword_loop net company (keyword # keywords) (maxEngineerCount, bestKeyword) =
     (let count = searchPeopleCount net company keyword in
      keyword_loop net company keywords
        (if count > maxEngineerCount then (count, keyword) else (maxEngineerCount, bestKeyword)))"

text \<open>
  The company identifier: group 1 of \<^verbatim>\<open>/linkedin\.com\/company\/([^/]+)/\<close> on the
  LinkedIn URL when there is one and it matches, the company name otherwise.
\<close>

definition companyIdentifier :: "string \<Rightarrow> string option \<Rightarrow> string" where
  "companyIdentifier companyName linkedinUrl =
     (case linkedinUrl of
        None \<Rightarrow> companyName
      | Some u \<Rightarrow>
          if u = [] then companyName
          else (case group 1 (search (seqs [lit ''linkedin.com/company/'',
                                            Group (Plus (none_of ''/''))]) u) of
                  None \<Rightarrow> companyName
                | Some g1 \<Rightarrow> g1))"

definition companyPageUrl :: "string \<Rightarrow> string option \<Rightarrow> string" where
  "companyPageUrl companyName linkedinUrl =
     (case linkedinUrl of
        None \<Rightarrow> ''https://www.linkedin.com/company/'' @ companyIdentifier companyName linkedinUrl
      | Some u \<Rightarrow>
          if u = [] then ''https://www.linkedin.com/company/'' @ companyIdentifier companyName linkedinUrl
          else u)"

definition maxEngineerCount :: "linkedin_pages \<Rightarrow> string \<Rightarrow> string option \<Rightarrow> int" where
  "maxEngineerCount net companyName linkedinUrl =
     fst (keyword_loop net (companyIdentifier companyName linkedinUrl) engineeringKeywords (0, []))"

text \<open>
  The heuristics after the searches (``Use heuristics to improve estimate''), from the
  scraped total and the search-derived count.
\<close>

definition heuristics :: "int option \<Rightarrow> int \<Rightarrow> HeadcountEstimate" where
  "heuristics scraped maxCount =
     (let (engineeringCount, confidence) =
        (if maxCount > 0 then
           (if truthy_num scraped \<and> maxCount > the scraped
            then (Math_floor (js_mul (of_int (the scraped)) (js_lit (4 / 10))), Low)
            else (maxCount, if maxCount > 10 then Medium else Low))
         else if truthy_num scraped
           then (Math_floor (js_mul (of_int (the scraped)) (js_lit (35 / 100))), Low)
         else (maxCount, Low))
      in \<lparr>totalEmployees = scraped,
          engineeringCount = (if engineeringCount > 0 then Some engineeringCount else None),
          hc_confidence = confidence,
          hc_source = ''linkedin_public_search''\<rparr>)"

definition estimateEngineeringCount ::
  "linkedin_pages \<Rightarrow> string \<Rightarrow> string option \<Rightarrow> HeadcountEstimate" where
  "estimateEngineeringCount net companyName linkedinUrl =
     heuristics (scrapeCompanyPage net (companyPageUrl companyName linkedinUrl))
                (maxEngineerCount net companyName linkedinUrl)"

text \<open>
  \<open>estimateFromJobPostings\<close> and \<open>estimateFromGitHub\<close>.
\<close>

definition estimateFromJobPostings :: "int \<Rightarrow> int" where
  "estimateFromJobPostings engineeringJobCount =
     (if engineeringJobCount = 0 then 0 else Math_floor (js_mul (of_int engineeringJobCount) 5))"

definition estimateFromGitHub :: "int \<Rightarrow> int" where
  "estimateFromGitHub activeContributors =
     (if activeContributors = 0 then 0
      else Math_floor (fl (of_int activeContributors / js_lit (7 / 10))))"

section \<open>Headcount estimator: combining estimates\<close>

text \<open>
  \<open>combineEstimates(estimates: Array<{ value: number; confidence: number }>)\<close> of
  \<open>LinkedInHeadcountFetcher\<close>. The loop adds \<open>value * confidence\<close> to \<open>weightedSum\<close>
  and \<open>confidence\<close> to \<open>totalWeight\<close>, both starting at 0, and the result is
  \<open>Math.floor(weightedSum / totalWeight)\<close>.
\<close>

record estimate =
  est_value :: rat
  est_confidence :: rat

fun sum_loop :: "estimate list \<Rightarrow> rat \<times> rat \<Rightarrow> rat \<times> rat" where
  "sum_loop [] acc = acc"
| "sum_loop (e # es) (weightedSum, totalWeight) =
     sum_loop es (js_add weightedSum (js_mul (est_value e) (est_confidence e)),
                  js_add totalWeight (est_confidence e))"

definition combineEstimates :: "estimate list \<Rightarrow> int option" where
  "combineEstimates estimates =
     (if length estimates = 0 then Some 0
      else case sum_loop estimates (0, 0) of
        (weightedSum, totalWeight) \<Rightarrow> map_option Math_floor (js_div weightedSum totalWeight))"

definition weighted_total :: "estimate list \<Rightarrow> rat" where
  "weighted_total es = (\<Sum>e\<leftarrow>es. est_value e * est_confidence e)"

definition confidence_total :: "estimate list \<Rightarrow> rat" where
  "confidence_total es = (\<Sum>e\<leftarrow>es. est_confidence e)"

text \<open>
  The exact confidence-weighted mean \<open>(\<Sum> value * confidence) / (\<Sum> confidence)\<close>, and
  the relative error \<open>(2n + 2) * 2\<^sup>-\<^sup>5\<^sup>3\<close> that the \<open>3n + 1\<close> roundings of a run over \<open>n\<close>
  estimates can accumulate.
\<close>

definition weighted_mean :: "estimate list \<Rightarrow> rat" where
  "weighted_mean es = weighted_total es / confidence_total es"

definition rel_error :: "estimate list \<Rightarrow> rat" where
  "rel_error es = of_nat (2 * length es + 2) * unit_roundoff"

text \<open>
  Inputs in range: at most \<open>2\<^sup>2\<^sup>0\<close> estimates, every value 0 or between \<open>2\<^sup>-\<^sup>3\<^sup>0\<close> and
  \<open>2\<^sup>3\<^sup>0\<close>, every confidence between \<open>2\<^sup>-\<^sup>3\<^sup>0\<close> and \<open>2\<^sup>3\<^sup>0\<close>.
\<close>

definition bounded_estimate :: "estimate \<Rightarrow> bool" where
  "bounded_estimate e =
     ((est_value e = 0 \<or> 1 / 2 ^ 30 \<le> est_value e) \<and> est_value e \<le> 2 ^ 30 \<and>
      1 / 2 ^ 30 \<le> est_confidence e \<and> est_confidence e \<le> 2 ^ 30)"

definition bounded_estimates :: "estimate list \<Rightarrow> bool" where
  "bounded_estimates es = (length es \<le> 2 ^ 20 \<and> list_all bounded_estimate es)"

text \<open>
  \<open>results_in_range\<close> follows the loop and says of every exact result that the loop rounds
  (the product, the two sums) that it is in the range where \<open>fl\<close> is the rounding of the
  hardware; \<open>all_results_in_range\<close> adds that the divisor is not zero and that the
  quotient is in that range.
\<close>

fun results_in_range :: "estimate list \<Rightarrow> rat \<times> rat \<Rightarrow> bool" where
  "results_in_range [] (weightedSum, totalWeight) = True"
| "results_in_range (e # es) (weightedSum, totalWeight) =
     (normal_range (est_value e * est_confidence e) \<and>
      normal_range (weightedSum + js_mul (est_value e) (est_confidence e)) \<and>
      normal_range (totalWeight + est_confidence e) \<and>
      results_in_range es (js_add weightedSum (js_mul (est_value e) (est_confidence e)),
                           js_add totalWeight (est_confidence e)))"

definition all_results_in_range :: "estimate list \<Rightarrow> bool" where
  "all_results_in_range es =
     (results_in_range es (0, 0) \<and>
      (case sum_loop es (0, 0) of
         (weightedSum, totalWeight) \<Rightarrow> totalWeight \<noteq> 0 \<and> normal_range (weightedSum / totalWeight)))"

section \<open>Mobile app detector\<close>

datatype platform = Ios | Android

text \<open>\<open>MobileApp\<close> and \<open>MobileAppData\<close> (without \<open>detectedAt\<close>, the wall clock).\<close>

record MobileApp =
  platform :: platform
  appName :: string
  appId :: "string option"
  appUrl :: string
  developer :: "string option"
  detectionMethod :: string

record MobileAppData =
  hasIosApp :: bool
  hasAndroidApp :: bool
  iosApps :: "MobileApp list"
  androidApps :: "MobileApp list"
  allApps :: "MobileApp list"

definition is_lower :: "char \<Rightarrow> bool" where
  "is_lower c = (97 \<le> (of_char c :: nat) \<and> (of_char c :: nat) \<le> 122)"

definition is_upper :: "char \<Rightarrow> bool" where
  "is_upper c = (65 \<le> (of_char c :: nat) \<and> (of_char c :: nat) \<le> 90)"

definition toUpperCase_char :: "char \<Rightarrow> char" where
  "toUpperCase_char c = (if is_lower c then char_of ((of_char c :: nat) - 32) else c)"

definition single_quote :: char where
  "single_quote = CHR 0x27"

text \<open>\<open>s.split(c)\<close> for a one-character separator, and \<open>parts.join(' ')\<close>.\<close>

fun split_on :: "char \<Rightarrow> string \<Rightarrow> string list" where
  "split_on sep [] = [[]]"
| "split_on sep (c # cs) =
     (if c = sep then [] # split_on sep cs
      else (case split_on sep cs of
              [] \<Rightarrow> [[c]]
            | w # ws \<Rightarrow> (c # w) # ws))"

fun join_spaces :: "string list \<Rightarrow> string" where
  "join_spaces [] = []"
| "join_spaces [w] = w"
| "join_spaces (w # ws) = w @ '' '' @ join_spaces ws"

definition capitalizeWords :: "string \<Rightarrow> string" where
  "capitalizeWords str =
     join_spaces (map (\<lambda>word. (case word of
                                   [] \<Rightarrow> []
                                 | c # cs \<Rightarrow> toUpperCase_char c # toLowerCase cs))
                      (split_on CHR '' '' str))"

text \<open>\<open>s.replace(/([a-z])([A-Z])/g, '$1 $2')\<close> and \<open>s.replace(/-/g, ' ')\<close>.\<close>

fun camel_spaces :: "string \<Rightarrow> string" where
  "camel_spaces (a # b # cs) =
     (if is_lower a \<and> is_upper b then a # CHR '' '' # b # camel_spaces cs
      else a # camel_spaces (b # cs))"
| "camel_spaces cs = cs"

definition hyphens_to_spaces :: "string \<Rightarrow> string" where
  "hyphens_to_spaces s = map (\<lambda>c. if c = CHR ''-'' then CHR '' '' else c) s"

definition extractAppNameFromPackage :: "string \<Rightarrow> string" where
  "extractAppNameFromPackage packageId =
     capitalizeWords (camel_spaces (last (split_on CHR ''.'' packageId)))"

text \<open>Character classes of the detector's patterns, all under the flags \<open>gi\<close>.\<close>

definition quote :: regex where
  "quote = Atom (\<lambda>c. c = double_quote \<or> c = single_quote)"

definition not_quote :: regex where
  "not_quote = Atom (\<lambda>c. c \<noteq> double_quote \<and> c \<noteq> single_quote)"

definition path_char :: regex where
  "path_char = Atom (\<lambda>c. c \<noteq> CHR ''/'' \<and> \<not> is_space c \<and> c \<noteq> double_quote \<and> c \<noteq> single_quote)"

definition letter_i :: regex where
  "letter_i = Atom (\<lambda>c. is_lower (toLowerCase_char c))"

definition package_char :: regex where
  "package_char = Atom (\<lambda>c. is_lower c \<or> is_upper c \<or> is_digit c \<or> c = CHR ''.'' \<or> c = CHR ''_'')"

definition not_gt :: regex where
  "not_gt = Atom (\<lambda>c. c \<noteq> CHR ''>'')"

text \<open>
  Method 1, \<open>detectAppStoreLinks\<close>:
  \<^verbatim>\<open>/https?:\/\/apps\.apple\.com\/[a-z]{2}\/app\/([^\/\s"']+)\/id(\d+)/gi\<close>, then the
  same for \<open>itunes.apple.com\<close>.
\<close>

definition store_regex :: "string \<Rightarrow> regex" where
  "store_regex host =
     seqs [lit_i ''http'', Opt (lit_i ''s''), lit_i ''://'', lit_i host, lit_i ''/'',
           letter_i, letter_i, lit_i ''/app/'', Group (Plus path_char), lit_i ''/id'',
           Group (Plus digit)]"

fun store_app :: "string \<Rightarrow> string list \<Rightarrow> MobileApp list" where
  "store_app how (m0 # m1 # m2 # _) =
     [\<lparr>platform = Ios, appName = capitalizeWords (hyphens_to_spaces m1), appId = Some m2,
       appUrl = m0, developer = None, detectionMethod = how\<rparr>]"
| "store_app how _ = []"

definition detectAppStoreLinks :: "string \<Rightarrow> MobileApp list" where
  "detectAppStoreLinks html =
     concat (map (store_app ''App Store URL'') (exec_all (store_regex ''apps.apple.com'') html)) @
     concat (map (store_app ''iTunes URL'') (exec_all (store_regex ''itunes.apple.com'') html))"

text \<open>
  Method 2, \<open>detectPlayStoreLinks\<close>:
  \<^verbatim>\<open>/https?:\/\/play\.google\.com\/store\/apps\/details\?id=([a-zA-Z0-9._]+)/gi\<close>.
\<close>

definition playStoreRegex :: regex where
  "playStoreRegex =
     seqs [lit_i ''http'', Opt (lit_i ''s''), lit_i ''://play.google.com/store/apps/details?id='',
           Group (Plus package_char)]"

fun play_app :: "string list \<Rightarrow> MobileApp list" where
  "play_app (m0 # m1 # _) =
     [\<lparr>platform = Android, appName = extractAppNameFromPackage m1, appId = Some m1,
       appUrl = m0, developer = None, detectionMethod = ''Google Play URL''\<rparr>]"
| "play_app _ = []"

definition detectPlayStoreLinks :: "string \<Rightarrow> MobileApp list" where
  "detectPlayStoreLinks html = concat (map play_app (exec_all playStoreRegex html))"

text \<open>
  Method 3, \<open>detectSmartBanners\<close>: four meta tag patterns of the shape
  \<^verbatim>\<open>/<meta[^>]*name=["']apple-itunes-app["'][^>]*content=["']app-id=(\d+)/gi\<close>.
\<close>

definition meta_regex :: "string \<Rightarrow> string \<Rightarrow> string \<Rightarrow> regex \<Rightarrow> regex" where
  "meta_regex attr name prefix body =
     seqs [lit_i ''<meta'', Star not_gt, lit_i attr, lit_i ''='', quote, lit_i name, quote,
           Star not_gt, lit_i ''content='', quote, lit_i prefix, Group (Plus body)]"

fun ios_banner_app :: "string \<Rightarrow> string \<Rightarrow> string list \<Rightarrow> MobileApp list" where
  "ios_banner_app name how (m0 # m1 # _) =
     [\<lparr>platform = Ios, appName = name, appId = Some m1,
       appUrl = ''https://apps.apple.com/app/id'' @ m1, developer = None,
       detectionMethod = how\<rparr>]"
| "ios_banner_app name how _ = []"

fun android_banner_app :: "string \<Rightarrow> string list \<Rightarrow> MobileApp list" where
  "android_banner_app how (m0 # m1 # _) =
     [\<lparr>platform = Android, appName = extractAppNameFromPackage m1, appId = Some m1,
       appUrl = ''https://play.google.com/store/apps/details?id='' @ m1, developer = None,
       detectionMethod = how\<rparr>]"
| "android_banner_app how _ = []"

definition detectSmartBanners :: "string \<Rightarrow> MobileApp list" where
  "detectSmartBanners html =
     concat (map (ios_banner_app ''Mobile App'' ''iOS Smart Banner'')
               (exec_all (meta_regex ''name'' ''apple-itunes-app'' ''app-id='' digit) html)) @
     concat (map (ios_banner_app ''iOS App'' ''iOS App Links Meta'')
               (exec_all (meta_regex ''property'' ''al:ios:app_store_id'' [] digit) html)) @
     concat (map (android_banner_app ''Android App Links Meta'')
               (exec_all (meta_regex ''property'' ''al:android:package'' [] not_quote) html)) @
     concat (map (android_banner_app ''Google Play Meta Tag'')
               (exec_all (meta_regex ''name'' ''google-play-app'' ''app-id='' not_quote) html))"

text \<open>
  Method 4, \<open>detectDeepLinks\<close>: when the page mentions \<open>apple-touch-icon\<close>, the first
  match of \<^verbatim>\<open>/<meta[^>]*name=["']apple-itunes-app["'][^>]*app-argument=([^"']+)/gi\<close>;
  then every match of \<^verbatim>\<open>/intent:\/\/([^\/\s"']+)/gi\<close>. These apps have no
  \<open>appId\<close>. The \<open>domain\<close> parameter is not used.
\<close>

definition appArgumentRegex :: regex where
  "appArgumentRegex =
     seqs [lit_i ''<meta'', Star not_gt, lit_i ''name='', quote, lit_i ''apple-itunes-app'', quote,
           Star not_gt, lit_i ''app-argument='', Group (Plus not_quote)]"

definition intentRegex :: regex where
  "intentRegex = seqs [lit_i ''intent://'', Group (Plus path_char)]"

fun universal_link_app :: "string list \<Rightarrow> MobileApp list" where
  "universal_link_app (m0 # m1 # _) =
     [\<lparr>platform = Ios, appName = ''Mobile App'', appId = None, appUrl = m1, developer = None,
       detectionMethod = ''Universal Links''\<rparr>]"
| "universal_link_app _ = []"

fun intent_app :: "string list \<Rightarrow> MobileApp list" where
  "intent_app (m0 # _) =
     [\<lparr>platform = Android, appName = ''Mobile App'', appId = None, appUrl = m0,
       developer = None, detectionMethod = ''Android Intent URL''\<rparr>]"
| "intent_app _ = []"

definition detectDeepLinks :: "string \<Rightarrow> string \<Rightarrow> MobileApp list" where
  "detectDeepLinks html domain =
     (if js_includes html ''apple-touch-icon''
      then (case search appArgumentRegex html of
              None \<Rightarrow> []
            | Some (groups, rest) \<Rightarrow> universal_link_app groups)
      else []) @
     concat (map intent_app (exec_all intentRegex html))"

text \<open>
  Method 5, \<open>detectAppPatterns\<close>, tests six phrases and does nothing with the outcome:
  its list stays empty.
\<close>

definition detectAppPatterns :: "string \<Rightarrow> MobileApp list" where
  "detectAppPatterns html = []"

text \<open>
  \<open>deduplicateApps\<close>: the key is the template string
  \<open>`${app.platform}-${app.appId || app.appUrl}`\<close>; \<open>seen\<close> is the set of keys met so far.
\<close>

definition platform_name :: "platform \<Rightarrow> string" where
  "platform_name p = (case p of Ios \<Rightarrow> ''ios'' | Android \<Rightarrow> ''android'')"

definition app_key :: "MobileApp \<Rightarrow> string" where
  "app_key app =
     platform_name (platform app) @ ''-'' @
     (case appId app of
        None \<Rightarrow> appUrl app
      | Some i \<Rightarrow> if i = [] then appUrl app else i)"

fun dedup_loop :: "MobileApp list \<Rightarrow> string set \<Rightarrow> MobileApp list" where
  "dedup_loop [] seen = []"
| "dedup_loop (app # apps) seen =
     (if app_key app \<notin> seen then app # dedup_loop apps (insert (app_key app) seen)
      else dedup_loop apps seen)"

definition deduplicateApps :: "MobileApp list \<Rightarrow> MobileApp list" where
  "deduplicateApps apps = dedup_loop apps {}"

text \<open>The list \<open>apps\<close> that \<open>detectMobileApps\<close> collects from the five methods.\<close>

definition collected_apps :: "string \<Rightarrow> string \<Rightarrow> MobileApp list" where
  "collected_apps html domain =
     detectAppStoreLinks html @ detectPlayStoreLinks html @ detectSmartBanners html @
     detectDeepLinks html domain @ detectAppPatterns html"

definition detectMobileApps :: "string \<Rightarrow> string \<Rightarrow> MobileAppData" where
  "detectMobileApps html domain =
     (let uniqueApps = deduplicateApps (collected_apps html domain);
          iosAppsList = filter (\<lambda>a. platform a = Ios) uniqueApps;
          androidAppsList = filter (\<lambda>a. platform a = Android) uniqueApps
      in \<lparr>hasIosApp = length iosAppsList > 0,
          hasAndroidApp = length androidAppsList > 0,
          iosApps = iosAppsList,
          androidApps = androidAppsList,
          allApps = uniqueApps\<rparr>)"

text \<open>
  The key the specification names: the platform together with the store identifier if the
  app has one, its URL otherwise.
\<close>

definition identifier_or_url :: "MobileApp \<Rightarrow> string" where
  "identifier_or_url app = (case appId app of None \<Rightarrow> appUrl app | Some i \<Rightarrow> i)"

definition spec_key :: "MobileApp \<Rightarrow> platform \<times> string" where
  "spec_key app = (platform app, identifier_or_url app)"

section \<open>Job scraper\<close>

text \<open>
  A posting has the fields of the interface \<open>JobPosting\<close> (its URL is the field
  \<open>posting_url\<close>, a date is a number). \<open>extractTopSkills\<close> counts in a \<open>Map\<close>, which
  iterates in insertion order: it is an association list here, and \<open>map_set\<close> replaces the
  number of a key where the key stands, or appends a new key. \<open>get_or_zero\<close> is
  \<open>skillCounts.get(skill) || 0\<close>. \<open>jobs_loop\<close> is the loop over the postings and
  \<open>skills_loop\<close> the loop over the vocabulary inside it. The sort of the entries is
  stable, as \<open>sort_key\<close> is, and the comparator \<open>b[1] - a[1]\<close> puts the larger number first.
\<close>

record JobPosting =
  title :: string
  department :: string
  location :: string
  remote :: bool
  postedDate :: "int option"
  posting_url :: string
  requiredSkills :: "string list"
  description :: string

definition techSkills :: "string list" where
  "techSkills =
     [''React'', ''Vue'', ''Angular'', ''Node.js'', ''Python'', ''Go'', ''Rust'', ''TypeScript'',
      ''JavaScript'', ''Java'', ''Kubernetes'', ''Docker'', ''AWS'', ''GCP'', ''Azure'',
      ''PostgreSQL'', ''MongoDB'', ''Redis'', ''GraphQL'', ''REST API'', ''Microservices'',
      ''Machine Learning'', ''AI'', ''Data Science'', ''SQL'', ''NoSQL'', ''CI/CD'',
      ''Git'', ''Agile'', ''Scrum'', ''TensorFlow'', ''PyTorch'', ''Spark'', ''Kafka'']"

fun map_set :: "string \<Rightarrow> nat \<Rightarrow> (string \<times> nat) list \<Rightarrow> (string \<times> nat) list" where
  "map_set k v [] = [(k, v)]"
| "map_set k v ((k', v') # kvs) =
     (if k' = k then (k, v) # kvs else (k', v') # map_set k v kvs)"

definition get_or_zero :: "(string \<times> nat) list \<Rightarrow> string \<Rightarrow> nat" where
  "get_or_zero skillCounts k = (case map_of skillCounts k of Some n \<Rightarrow> n | None \<Rightarrow> 0)"

definition posting_text :: "JobPosting \<Rightarrow> string" where
  "posting_text job = toLowerCase (title job @ '' '' @ description job)"

fun skills_loop :: "string list \<Rightarrow> string \<Rightarrow> (string \<times> nat) list \<Rightarrow> (string \<times> nat) list" where
  "skills_loop [] t skillCounts = skillCounts"
| "skills_loop (skill # skills) t skillCounts =
     skills_loop skills t
       (if js_includes t (toLowerCase skill)
        then map_set skill (get_or_zero skillCounts skill + 1) skillCounts
        else skillCounts)"

fun jobs_loop :: "JobPosting list \<Rightarrow> (string \<times> nat) list \<Rightarrow> (string \<times> nat) list" where
  "jobs_loop [] skillCounts = skillCounts"
| "jobs_loop (job # jobs) skillCounts =
     jobs_loop jobs (skills_loop techSkills (posting_text job) skillCounts)"

definition extractTopSkills :: "JobPosting list \<Rightarrow> string list" where
  "extractTopSkills jobs =
     map fst (take 10 (sort_key (\<lambda>(skill, n). - int n) (jobs_loop jobs [])))"

text \<open>
  The quantities that describe the result: whether a posting mentions a term, in how many
  postings a term is mentioned, the position of the first posting that mentions it (the
  number of postings if none does), and the position of a term in the vocabulary.
  \<open>ranks_before jobs a b\<close> holds when \<open>a\<close> has more mentions than \<open>b\<close>, or as many and
  an earlier first mention, or as many, the same first mention and an earlier position in
  the vocabulary.
\<close>

definition mentions_skill :: "JobPosting \<Rightarrow> string \<Rightarrow> bool" where
  "mentions_skill job skill = js_includes (posting_text job) (toLowerCase skill)"

definition mention_count :: "JobPosting list \<Rightarrow> string \<Rightarrow> nat" where
  "mention_count jobs skill = length (filter (\<lambda>job. mentions_skill job skill) jobs)"

definition first_mention :: "JobPosting list \<Rightarrow> string \<Rightarrow> nat" where
  "first_mention jobs skill = length (takeWhile (\<lambda>job. \<not> mentions_skill job skill) jobs)"

definition catalog_index :: "string \<Rightarrow> nat" where
  "catalog_index skill = length (takeWhile (\<lambda>s. s \<noteq> skill) techSkills)"

definition first_before :: "JobPosting list \<Rightarrow> string \<Rightarrow> string \<Rightarrow> bool" where
  "first_before jobs a b =
     (first_mention jobs a < first_mention jobs b \<or>
      (first_mention jobs a = first_mention jobs b \<and> catalog_index a < catalog_index b))"

definition ranks_before :: "JobPosting list \<Rightarrow> string \<Rightarrow> string \<Rightarrow> bool" where
  "ranks_before jobs a b =
     (mention_count jobs b < mention_count jobs a \<or>
      (mention_count jobs a = mention_count jobs b \<and> first_before jobs a b))"

section \<open>Concrete inputs\<close>

text \<open>Pages used as concrete inputs below.\<close>

definition page_201_500 :: linkedin_pages where
  "page_201_500 =
     \<lparr>companyPage = (\<lambda>url. Some ''201-500 employees''),
      peopleSearch = (\<lambda>company keyword. None)\<rparr>"

definition page_51_200 :: linkedin_pages where
  "page_51_200 =
     \<lparr>companyPage = (\<lambda>url. Some ''51-200 employees''),
      peopleSearch = (\<lambda>company keyword. None)\<rparr>"

definition pages_50_80 :: linkedin_pages where
  "pages_50_80 =
     \<lparr>companyPage = (\<lambda>url. Some ''50 employees''),
      peopleSearch = (\<lambda>company keyword.
         if keyword = ''engineer'' then Some ''About 80 results'' else None)\<rparr>"

definition pages_2_5 :: linkedin_pages where
  "pages_2_5 =
     \<lparr>companyPage = (\<lambda>url. Some ''2 employees''),
      peopleSearch = (\<lambda>company keyword.
         if keyword = ''engineer'' then Some ''About 5 results'' else None)\<rparr>"

definition posting :: "string \<Rightarrow> JobPosting" where
  "posting t =
     \<lparr>title = t, department = ''Other'', location = [], remote = False, postedDate = None,
      posting_url = [], requiredSkills = [], description = []\<rparr>"

section \<open>Properties of the arithmetic\<close>

lemma round_half_even_bounds: "\<lfloor>q\<rfloor> \<le> round_half_even q \<and> round_half_even q \<le> \<lceil>q\<rceil>"
proof -
  have "q - of_int \<lfloor>q\<rfloor> \<noteq> 0 \<Longrightarrow> \<lfloor>q\<rfloor> + 1 \<le> \<lceil>q\<rceil>"
    by (metis ceiling_of_int diff_self floor_less_cancel less_ceiling_iff not_less of_int_floor_le zless_imp_add1_zle le_less)
  moreover have "\<lfloor>q\<rfloor> \<le> \<lceil>q\<rceil>" by (simp add: floor_le_ceiling)
  ultimately show ?thesis
    unfolding round_half_even_def Let_def by auto
qed

lemma fl_sandwich:
  assumes u: "ulp x = 1 / 2 ^ j" and a: "of_int m / 2 ^ j \<le> x" and b: "x \<le> of_int n / 2 ^ j"
  shows "of_int m / 2 ^ j \<le> fl x \<and> fl x \<le> of_int n / 2 ^ j"
proof (cases "x = 0")
  case True
  with a b show ?thesis by (simp add: fl_def)
next
  case False
  let ?q = "x * 2 ^ j"
  have fl: "fl x = of_int (round_half_even ?q) / 2 ^ j"
    using False by (simp add: fl_def u)
  have "of_int m \<le> ?q" using a by (simp add: pos_divide_le_eq)
  then have "m \<le> \<lfloor>?q\<rfloor>" by (simp add: le_floor_iff)
  then have lo: "m \<le> round_half_even ?q" using round_half_even_bounds [of ?q] by linarith
  have "?q \<le> of_int n" using b by (simp add: pos_le_divide_eq)
  then have "\<lceil>?q\<rceil> \<le> n" by (simp add: ceiling_le_iff)
  then have hi: "round_half_even ?q \<le> n" using round_half_even_bounds [of ?q] by linarith
  from lo hi show ?thesis
    unfolding fl by (simp add: divide_le_cancel)
qed

lemma ulp_mid:
  assumes "1 \<le> x" and "x < 2 ^ 49"
  shows "\<exists>j. 3 \<le> j \<and> ulp x = 1 / 2 ^ j"
proof -
  have ax: "\<bar>x\<bar> = x" using assms by simp
  have f1: "1 \<le> \<lfloor>x\<rfloor>" using assms by (simp add: le_floor_iff)
  have f2: "\<lfloor>x\<rfloor> < 2 ^ 49" using assms by (simp add: floor_less_iff)
  have b1: "1 \<le> bitlen \<lfloor>x\<rfloor>"
    using f1 bitlen_eq_zero_iff [of "\<lfloor>x\<rfloor>"] bitlen_nonneg [of "\<lfloor>x\<rfloor>"] by linarith
  have b2: "bitlen \<lfloor>x\<rfloor> \<le> 49"
    using f2 by (simp add: bitlen_le_iff_power)
  have e: "expo x = bitlen \<lfloor>x\<rfloor> - 1" using assms by (simp add: expo_def ax)
  have "ulp x = 1 / 2 ^ nat (53 - bitlen \<lfloor>x\<rfloor>)"
    using b1 b2 by (simp add: ulp_def e pow2_def)
  moreover have "3 \<le> nat (53 - bitlen \<lfloor>x\<rfloor>)" using b2 by simp
  ultimately show ?thesis by blast
qed

lemma d04: "js_lit (4 / 10) = 3602879701896397 / 9007199254740992"
  by code_simp

lemma floor_clamp_small:
  "Math_floor (js_mul 1 (js_lit (4 / 10))) = 0 \<and> Math_floor (js_mul 2 (js_lit (4 / 10))) = 0"
  by code_simp

lemma floor_clamp:
  assumes t3: "3 \<le> t" and tb: "t < 100000"
  shows "Math_floor (js_mul (of_int t) (js_lit (4 / 10))) = (2 * t) div 5"
proof -
  let ?x = "of_int t * (3602879701896397 / 9007199254740992) :: rat"
  let ?k = "(2 * t) div 5"
  have x1: "1 \<le> ?x" using t3 by simp
  have x2: "?x < 2 ^ 49" using tb by simp
  from ulp_mid [OF x1 x2] obtain j where j3: "3 \<le> j" and u: "ulp ?x = 1 / 2 ^ j" by blast
  obtain i where j: "j = i + 3" using j3 by (metis add.commute le_Suc_ex)
  have k1: "of_int ?k \<le> (2 * of_int t / 5 :: rat)"
    by (metis floor_divide_of_int_eq of_int_floor_le of_int_mult of_int_numeral)
  have k2: "(2 * of_int t / 5 :: rat) \<le> of_int ?k + 4 / 5"
  proof -
    have "2 * t = 5 * ?k + (2 * t) mod 5" by simp
    moreover have "(2 * t) mod 5 \<le> 4" by simp
    ultimately have "2 * t \<le> 5 * ?k + 4" by linarith
    then have "(of_int (2 * t) :: rat) \<le> of_int (5 * ?k + 4)" by (simp only: of_int_le_iff)
    then show ?thesis by simp
  qed
  have aeq: "of_int (?k * 2 ^ j) / 2 ^ j = (of_int ?k :: rat)"
    by simp
  have beq: "of_int ((8 * ?k + 7) * 2 ^ i) / 2 ^ j = (of_int ?k + 7 / 8 :: rat)"
    by (simp add: j power_add field_simps)
  have a: "of_int (?k * 2 ^ j) / 2 ^ j \<le> ?x"
    unfolding aeq using k1 t3 by simp
  have b: "?x \<le> of_int ((8 * ?k + 7) * 2 ^ i) / 2 ^ j"
    unfolding beq using k2 tb t3 by simp
  from fl_sandwich [OF u a b]
  have lo: "of_int ?k \<le> fl ?x" and hi: "fl ?x \<le> of_int ?k + 7 / 8"
    unfolding aeq beq by blast+
  have fin: "\<lfloor>fl ?x\<rfloor> = ?k"
    using lo hi by (simp add: floor_unique)
  show ?thesis
    unfolding Math_floor_def js_mul_def d04 by (rule fin)
qed

subsection \<open>The relative error of rounding\<close>

lemma round_half_even_near: "\<bar>of_int (round_half_even q) - q\<bar> \<le> (1 / 2 :: rat)"
proof -
  define f where "f = \<lfloor>q\<rfloor>"
  define d where "d = q - of_int f"
  have d0: "0 \<le> d" and d1: "d < 1" unfolding d_def f_def by linarith+
  have q: "q = of_int f + d" unfolding d_def by simp
  have r: "round_half_even q = f \<or> round_half_even q = f + 1"
    unfolding round_half_even_def Let_def f_def by auto
  have lo: "round_half_even q = f \<Longrightarrow> d \<le> 1 / 2"
    unfolding round_half_even_def Let_def f_def [symmetric] d_def [symmetric]
    by (auto split: if_splits)
  have hi: "round_half_even q = f + 1 \<Longrightarrow> 1 / 2 \<le> d"
    unfolding round_half_even_def Let_def f_def [symmetric] d_def [symmetric]
    by (auto split: if_splits)
  from r show ?thesis
  proof
    assume a: "round_half_even q = f"
    with lo d0 show ?thesis unfolding a q by simp
  next
    assume a: "round_half_even q = f + 1"
    with hi d1 show ?thesis unfolding a q by simp
  qed
qed

lemma pow2_pos: "0 < pow2 k"
  by (simp add: pow2_def)

lemma pow2_add: "pow2 (a + b) = pow2 a * pow2 b"
proof -
  have "pow2 k = 2 powi k" for k
    by (simp add: pow2_def power_int_def power_one_over)
  then show ?thesis by (simp add: power_int_add)
qed

lemma pow2_neg: "pow2 (- int m) = 1 / 2 ^ m"
  by (cases "m = 0") (simp_all add: pow2_def)

lemma pow2_expo_le:
  assumes "x \<noteq> 0"
  shows "pow2 (expo x) \<le> \<bar>x\<bar>"
proof (cases "1 \<le> \<bar>x\<bar>")
  case True
  let ?n = "\<lfloor>\<bar>x\<bar>\<rfloor>"
  have n1: "0 < ?n" using True by (simp add: le_floor_iff)
  have b: "1 \<le> bitlen ?n"
    using n1 bitlen_eq_zero_iff [of ?n] bitlen_nonneg [of ?n] by linarith
  from bitlen_bounds [OF n1] have "2 ^ nat (bitlen ?n - 1) \<le> ?n" by simp
  then have "(2 :: rat) ^ nat (bitlen ?n - 1) \<le> of_int ?n"
    by (metis of_int_le_iff of_int_numeral of_int_power)
  also have "\<dots> \<le> \<bar>x\<bar>" by simp
  finally show ?thesis using True b by (simp add: expo_def pow2_def)
next
  case False
  let ?N = "nat \<lceil>1 / \<bar>x\<bar>\<rceil>"
  have xp: "0 < \<bar>x\<bar>" using assms by simp
  have "1 / \<bar>x\<bar> \<le> of_int \<lceil>1 / \<bar>x\<bar>\<rceil>" by (rule le_of_int_ceiling)
  also have "\<dots> = of_nat ?N"
    using xp by (simp add: less_imp_le)
  also have "(of_nat ?N :: rat) \<le> of_nat (2 ^ ceillog2 ?N)"
    using le_two_power_ceillog2 [of ?N] by (simp only: of_nat_le_iff)
  finally have "1 / \<bar>x\<bar> \<le> 2 ^ ceillog2 ?N" by simp
  then have "1 / 2 ^ ceillog2 ?N \<le> \<bar>x\<bar>"
    using xp by (simp add: field_simps)
  then show ?thesis using False by (simp add: expo_def pow2_neg)
qed

lemma fl_error: "\<bar>fl x - x\<bar> \<le> \<bar>x\<bar> * unit_roundoff"
proof (cases "x = 0")
  case True
  then show ?thesis by (simp add: fl_def)
next
  case False
  let ?u = "ulp x"
  have up: "0 < ?u" unfolding ulp_def by (rule pow2_pos)
  have "fl x - x = (of_int (round_half_even (x / ?u)) - x / ?u) * ?u"
    using False up by (simp add: fl_def field_simps)
  then have "\<bar>fl x - x\<bar> = \<bar>of_int (round_half_even (x / ?u)) - x / ?u\<bar> * ?u"
    using up by (simp add: abs_mult)
  also have "\<dots> \<le> 1 / 2 * ?u"
    using round_half_even_near [of "x / ?u"] up by (simp add: mult_right_mono)
  also have "\<dots> = pow2 (expo x) * unit_roundoff"
  proof -
    have "?u = pow2 (expo x + (- 52))" by (simp add: ulp_def)
    also have "\<dots> = pow2 (expo x) * pow2 (- 52)" by (rule pow2_add)
    finally show ?thesis by (simp add: pow2_def unit_roundoff_def)
  qed
  also have "\<dots> \<le> \<bar>x\<bar> * unit_roundoff"
    using pow2_expo_le [OF False] by (simp add: unit_roundoff_def)
  finally show ?thesis .
qed

lemma fl_bounds:
  assumes "0 \<le> x"
  shows "x * (1 - unit_roundoff) \<le> fl x" and "fl x \<le> x * (1 + unit_roundoff)"
  using fl_error [of x] assms by (simp_all add: abs_le_iff algebra_simps)

lemma fl_nonneg: "0 \<le> x \<Longrightarrow> 0 \<le> fl x"
proof -
  assume x: "0 \<le> x"
  have "0 \<le> x * (1 - unit_roundoff)" using x by (simp add: unit_roundoff_def)
  with fl_bounds(1) [OF x] show ?thesis by linarith
qed

lemma fl_lower: "0 \<le> x \<Longrightarrow> x * (1 - unit_roundoff) \<le> fl x"
  by (rule fl_bounds(1))

lemma fl_upper: "0 \<le> x \<Longrightarrow> fl x * (1 - unit_roundoff) \<le> x"
proof -
  assume x: "0 \<le> x"
  have "fl x * (1 - unit_roundoff) \<le> x * (1 + unit_roundoff) * (1 - unit_roundoff)"
    using fl_bounds(2) [OF x] by (simp add: unit_roundoff_def mult_right_mono)
  also have "\<dots> = x - x * unit_roundoff * unit_roundoff" by (simp add: algebra_simps)
  also have "\<dots> \<le> x" using x by (simp add: unit_roundoff_def)
  finally show ?thesis .
qed

section \<open>Properties of the headcount estimator\<close>

subsection \<open>Combining estimates\<close>

lemma sum_loop_bounds:
  fixes d :: rat
  defines "d \<equiv> 1 - unit_roundoff"
  assumes "list_all (\<lambda>e. 0 \<le> est_value e \<and> 0 \<le> est_confidence e) es"
    and "0 \<le> w" and "0 \<le> t" and "0 \<le> A" and "0 \<le> C"
    and "A * d ^ (k + 1) \<le> w" and "w * d ^ (k + 1) \<le> A"
    and "C * d ^ k \<le> t" and "t * d ^ k \<le> C"
  shows "\<exists>w' t'. sum_loop es (w, t) = (w', t') \<and> 0 \<le> w' \<and> 0 \<le> t' \<and>
           (A + weighted_total es) * d ^ (k + length es + 1) \<le> w' \<and>
           w' * d ^ (k + length es + 1) \<le> A + weighted_total es \<and>
           (C + confidence_total es) * d ^ (k + length es) \<le> t' \<and>
           t' * d ^ (k + length es) \<le> C + confidence_total es"
  using assms(2-)
proof (induction es arbitrary: w t A C k)
  case Nil
  then show ?case by (simp add: weighted_total_def confidence_total_def)
next
  case (Cons e es)
  have d0: "0 < d" and d1: "d \<le> 1" by (simp_all add: d_def unit_roundoff_def)
  have dk: "d ^ n \<le> 1" and dk0: "0 \<le> d ^ n" for n
    using d0 d1 by (simp_all add: power_le_one)
  let ?v = "est_value e" and ?c = "est_confidence e"
  from Cons.prems(1) have v0: "0 \<le> ?v" and c0: "0 \<le> ?c"
    and rest: "list_all (\<lambda>e. 0 \<le> est_value e \<and> 0 \<le> est_confidence e) es" by simp_all
  have vc0: "0 \<le> ?v * ?c" using v0 c0 by simp
  let ?p = "fl (?v * ?c)"
  have p0: "0 \<le> ?p" using vc0 by (rule fl_nonneg)
  have p_lo: "?v * ?c * d \<le> ?p" using fl_lower [OF vc0] by (simp add: d_def)
  have p_hi: "?p * d \<le> ?v * ?c" using fl_upper [OF vc0] by (simp add: d_def)
  let ?w = "fl (w + ?p)" and ?t = "fl (t + ?c)"
  have wp0: "0 \<le> w + ?p" using Cons.prems(2) p0 by simp
  have tc0: "0 \<le> t + ?c" using Cons.prems(3) c0 by simp
  have w0: "0 \<le> ?w" using wp0 by (rule fl_nonneg)
  have t0: "0 \<le> ?t" using tc0 by (rule fl_nonneg)
  have w_lo: "(A + ?v * ?c) * d ^ (Suc k + 1) \<le> ?w"
  proof -
    have "?v * ?c * d ^ (k + 1) \<le> ?v * ?c * d"
      using vc0 d0 d1 dk [of k] by (simp add: mult_left_mono mult_le_cancel_left2)
    then have "(A + ?v * ?c) * d ^ (k + 1) \<le> w + ?p"
      using Cons.prems(6) p_lo by (simp add: algebra_simps)
    then have "(A + ?v * ?c) * d ^ (k + 1) * d \<le> (w + ?p) * d"
      using d0 by (simp add: mult_right_mono)
    also have "\<dots> \<le> ?w" using fl_lower [OF wp0] by (simp add: d_def)
    finally show ?thesis by (simp add: algebra_simps)
  qed
  have w_hi: "?w * d ^ (Suc k + 1) \<le> A + ?v * ?c"
  proof -
    have "?w * d \<le> w + ?p" using fl_upper [OF wp0] by (simp add: d_def)
    then have "?w * d * d ^ (k + 1) \<le> (w + ?p) * d ^ (k + 1)"
      using dk0 [of "k + 1"] by (rule mult_right_mono)
    also have "\<dots> = w * d ^ (k + 1) + ?p * d * d ^ k" by (simp add: algebra_simps)
    also have "\<dots> \<le> A + ?v * ?c * d ^ k"
      using Cons.prems(7) p_hi dk0 [of k] by (simp add: add_mono mult_right_mono)
    also have "\<dots> \<le> A + ?v * ?c"
      using vc0 dk [of k] by (simp add: mult_left_le)
    finally show ?thesis by (simp add: algebra_simps)
  qed
  have t_lo: "(C + ?c) * d ^ Suc k \<le> ?t"
  proof -
    have "?c * d ^ k \<le> ?c" using c0 dk [of k] by (simp add: mult_left_le)
    then have "(C + ?c) * d ^ k \<le> t + ?c"
      using Cons.prems(8) by (simp add: algebra_simps)
    then have "(C + ?c) * d ^ k * d \<le> (t + ?c) * d"
      using d0 by (simp add: mult_right_mono)
    also have "\<dots> \<le> ?t" using fl_lower [OF tc0] by (simp add: d_def)
    finally show ?thesis by (simp add: algebra_simps)
  qed
  have t_hi: "?t * d ^ Suc k \<le> C + ?c"
  proof -
    have "?t * d \<le> t + ?c" using fl_upper [OF tc0] by (simp add: d_def)
    then have "?t * d * d ^ k \<le> (t + ?c) * d ^ k"
      using dk0 [of k] by (rule mult_right_mono)
    also have "\<dots> = t * d ^ k + ?c * d ^ k" by (simp add: algebra_simps)
    also have "\<dots> \<le> C + ?c"
      using Cons.prems(9) c0 dk [of k] by (simp add: add_mono mult_left_le)
    finally show ?thesis by (simp add: algebra_simps)
  qed
  have A0: "0 \<le> A + ?v * ?c" using Cons.prems(4) vc0 by simp
  have C0: "0 \<le> C + ?c" using Cons.prems(5) c0 by simp
  from Cons.IH [OF rest w0 t0 A0 C0 w_lo w_hi t_lo t_hi]
  show ?case
    by (simp add: js_add_def js_mul_def weighted_total_def confidence_total_def add.assoc)
qed

lemma confidence_total_lower:
  "list_all (\<lambda>e. m \<le> est_confidence e) es \<Longrightarrow> of_nat (length es) * m \<le> confidence_total es"
  by (induction es) (simp_all add: confidence_total_def algebra_simps)

lemma weighted_total_upper:
  "list_all (\<lambda>e. est_value e \<le> V \<and> 0 \<le> est_confidence e) es \<Longrightarrow>
     weighted_total es \<le> V * confidence_total es"
proof (induction es)
  case Nil
  show ?case by (simp add: weighted_total_def confidence_total_def)
next
  case (Cons e es)
  then have "est_value e * est_confidence e \<le> V * est_confidence e"
    by (simp add: mult_right_mono)
  with Cons show ?case
    by (simp add: weighted_total_def confidence_total_def algebra_simps)
qed

lemma weighted_total_nonneg:
  "list_all (\<lambda>e. 0 \<le> est_value e \<and> 0 \<le> est_confidence e) es \<Longrightarrow> 0 \<le> weighted_total es"
  by (induction es) (simp_all add: weighted_total_def)

lemma bernoulli_rat:
  fixes u :: rat
  assumes "0 \<le> u" and "u \<le> 1"
  shows "1 - of_nat m * u \<le> (1 - u) ^ m"
proof (induction m)
  case 0
  show ?case by simp
next
  case (Suc m)
  have "1 - of_nat (Suc m) * u \<le> (1 - of_nat m * u) * (1 - u)"
  proof -
    have "(1 - of_nat m * u) * (1 - u) = 1 - of_nat (Suc m) * u + of_nat m * (u * u)"
      by (simp add: algebra_simps)
    moreover have "0 \<le> of_nat m * (u * u)" using assms(1) by simp
    ultimately show ?thesis by linarith
  qed
  also have "\<dots> \<le> (1 - u) ^ m * (1 - u)"
    using Suc assms(2) by (simp add: mult_right_mono)
  finally show ?case by (simp add: mult.commute)
qed

lemma combineEstimates_bounded:
  assumes ne: "estimates \<noteq> []" and b: "bounded_estimates estimates"
  shows "\<exists>r. combineEstimates estimates = Some r \<and>
           \<lfloor>weighted_mean estimates\<rfloor> - 1 \<le> r \<and> r \<le> \<lfloor>weighted_mean estimates\<rfloor> + 1 \<and>
           \<lfloor>weighted_mean estimates * (1 - rel_error estimates)\<rfloor> \<le> r \<and>
           r \<le> \<lfloor>weighted_mean estimates / (1 - rel_error estimates)\<rfloor>"
proof -
  define d :: rat where "d = 1 - unit_roundoff"
  define n where "n = length estimates"
  define A where "A = weighted_total estimates"
  define C where "C = confidence_total estimates"
  define q where "q = A / C"
  define eps where "eps = rel_error estimates"
  have d0: "0 < d" and d1: "d \<le> 1" by (simp_all add: d_def unit_roundoff_def)
  have dk0: "0 < d ^ k" for k using d0 by simp
  from b have len: "n \<le> 2 ^ 20" and all: "list_all bounded_estimate estimates"
    by (simp_all add: bounded_estimates_def n_def)
  have nonneg: "list_all (\<lambda>e. 0 \<le> est_value e \<and> 0 \<le> est_confidence e) estimates"
    using all by (induction estimates) (auto simp: bounded_estimate_def intro: order_trans [rotated])
  have cl: "list_all (\<lambda>e. 1 / 2 ^ 30 \<le> est_confidence e) estimates"
    using all by (induction estimates) (auto simp: bounded_estimate_def)
  have vu: "list_all (\<lambda>e. est_value e \<le> 2 ^ 30 \<and> 0 \<le> est_confidence e) estimates"
    using all by (induction estimates) (auto simp: bounded_estimate_def intro: order_trans [rotated])
  have n1: "1 \<le> n" using ne by (cases estimates) (simp_all add: n_def)
  have Cpos: "0 < C"
  proof -
    have "(0 :: rat) < of_nat n * (1 / 2 ^ 30)" using n1 by simp
    also have "\<dots> \<le> C" unfolding C_def n_def by (rule confidence_total_lower [OF cl])
    finally show ?thesis .
  qed
  have A0: "0 \<le> A" unfolding A_def by (rule weighted_total_nonneg [OF nonneg])
  have AV: "A \<le> 2 ^ 30 * C" unfolding A_def C_def by (rule weighted_total_upper [OF vu])
  have q0: "0 \<le> q" using A0 Cpos by (simp add: q_def)
  have qV: "q \<le> 2 ^ 30" using AV Cpos by (simp add: q_def pos_divide_le_eq)
  from sum_loop_bounds [OF nonneg, of 0 0 0 0 0]
  obtain w t where loop: "sum_loop estimates (0, 0) = (w, t)" and w0: "0 \<le> w" and t0: "0 \<le> t"
    and w_lo: "A * d ^ (n + 1) \<le> w" and w_hi: "w * d ^ (n + 1) \<le> A"
    and t_lo: "C * d ^ n \<le> t" and t_hi: "t * d ^ n \<le> C"
    by (auto simp: d_def n_def A_def C_def)
  have tpos: "0 < t"
  proof -
    have "0 < C * d ^ n" using Cpos dk0 by simp
    with t_lo show ?thesis by linarith
  qed
  define x where "x = w / t"
  define y where "y = fl x"
  have x0: "0 \<le> x" using w0 tpos by (simp add: x_def)
  have y0: "0 \<le> y" unfolding y_def using x0 by (rule fl_nonneg)
  have res: "combineEstimates estimates = Some \<lfloor>y\<rfloor>"
    using ne tpos by (simp add: combineEstimates_def loop js_div_def Math_floor_def x_def y_def)
  have x_lo: "q * d ^ (2 * n + 1) \<le> x"
  proof -
    have "A * d ^ (n + 1) * d ^ n \<le> w * d ^ n"
      using w_lo dk0 [of n] by (simp add: mult_right_mono)
    also have "\<dots> = x * (t * d ^ n)" using tpos by (simp add: x_def)
    also have "\<dots> \<le> x * C" using t_hi x0 by (rule mult_left_mono)
    finally have "A * d ^ (2 * n + 1) \<le> x * C"
      by (simp add: power_add mult.assoc mult_2)
    then show ?thesis using Cpos by (simp add: q_def field_simps)
  qed
  have x_hi: "x * d ^ (2 * n + 1) \<le> q"
  proof -
    have "x * (C * d ^ n) \<le> x * t" using t_lo x0 by (rule mult_left_mono)
    also have "\<dots> = w" using tpos by (simp add: x_def)
    finally have "x * (C * d ^ n) * d ^ (n + 1) \<le> w * d ^ (n + 1)"
      using dk0 [of "n + 1"] by (simp add: mult_right_mono)
    also have "\<dots> \<le> A" by (rule w_hi)
    finally have "x * (C * d ^ n) * d ^ (n + 1) \<le> A" .
    moreover have "x * (C * d ^ n) * d ^ (n + 1) = x * d ^ (2 * n + 1) * C"
    proof -
      have "2 * n + 1 = n + (n + 1)" by simp
      then have "d ^ (2 * n + 1) = d ^ n * d ^ (n + 1)" by (simp only: power_add)
      then show ?thesis by (simp only: mult_ac)
    qed
    ultimately have "x * d ^ (2 * n + 1) * C \<le> A" by (simp only:)
    then show ?thesis using Cpos by (simp add: q_def pos_le_divide_eq)
  qed
  have y_lo: "q * d ^ (2 * n + 2) \<le> y"
  proof -
    have "q * d ^ (2 * n + 1) * d \<le> x * d" using x_lo d0 by (simp add: mult_right_mono)
    also have "\<dots> \<le> y" unfolding y_def using fl_lower [OF x0] by (simp add: d_def)
    finally show ?thesis by (simp add: algebra_simps)
  qed
  have y_hi: "y * d ^ (2 * n + 2) \<le> q"
  proof -
    have "y * d \<le> x" unfolding y_def using fl_upper [OF x0] by (simp add: d_def)
    then have "y * d * d ^ (2 * n + 1) \<le> x * d ^ (2 * n + 1)"
      using dk0 [of "2 * n + 1"] by (simp add: mult_right_mono)
    also have "\<dots> \<le> q" by (rule x_hi)
    finally show ?thesis by (simp add: algebra_simps)
  qed
  have bern: "1 - eps \<le> d ^ (2 * n + 2)"
  proof -
    have "1 - of_nat (2 * n + 2) * unit_roundoff \<le> (1 - unit_roundoff) ^ (2 * n + 2)"
      by (rule bernoulli_rat) (simp_all add: unit_roundoff_def)
    then show ?thesis by (simp add: eps_def rel_error_def d_def n_def)
  qed
  have eps0: "0 \<le> eps" by (simp add: eps_def rel_error_def unit_roundoff_def)
  have eps_small: "eps \<le> 1 / 2 ^ 31"
  proof -
    have "2 * n + 2 \<le> 2 ^ 22" using len by simp
    then have "(of_nat (2 * n + 2) :: rat) \<le> of_nat (2 ^ 22)" by (simp only: of_nat_le_iff)
    then have "of_nat (2 * n + 2) * unit_roundoff \<le> (2 ^ 22 :: rat) * unit_roundoff"
      by (simp add: unit_roundoff_def)
    then show ?thesis by (simp add: eps_def rel_error_def n_def unit_roundoff_def)
  qed
  have e1: "0 < 1 - eps" using eps_small by simp
  have lo: "q * (1 - eps) \<le> y"
  proof -
    have "q * (1 - eps) \<le> q * d ^ (2 * n + 2)" using bern q0 by (rule mult_left_mono)
    with y_lo show ?thesis by linarith
  qed
  have hi: "y \<le> q / (1 - eps)"
  proof -
    have "y * (1 - eps) \<le> y * d ^ (2 * n + 2)" using bern y0 by (rule mult_left_mono)
    with y_hi have "y * (1 - eps) \<le> q" by linarith
    then show ?thesis using e1 by (simp add: pos_le_divide_eq)
  qed
  have qe: "q * eps \<le> 1 / 2"
  proof -
    have "q * eps \<le> 2 ^ 30 * (1 / 2 ^ 31)"
      using qV eps_small q0 eps0 by (intro mult_mono) simp_all
    then show ?thesis by simp
  qed
  have near_lo: "q - 1 < y"
  proof -
    have "q * (1 - eps) = q - q * eps" by (simp add: algebra_simps)
    with lo qe show ?thesis by linarith
  qed
  have near_hi: "y < q + 1"
  proof -
    have "y * (1 - eps) \<le> q" using hi e1 by (simp add: pos_le_divide_eq)
    then have yq: "y \<le> q + y * eps" by (simp add: algebra_simps)
    have "y * (1 / 2) \<le> y * (1 - eps)" using y0 eps_small by (intro mult_left_mono) simp_all
    with \<open>y * (1 - eps) \<le> q\<close> have "y \<le> 2 * q" by simp
    then have "y * eps \<le> 2 * q * eps" using eps0 by (simp add: mult_right_mono)
    moreover have "q * eps \<le> 2 ^ 30 * (1 / 2 ^ 31) * (1 / 2) + q * eps * (1 / 2)"
      using qe by simp
    moreover have "q * eps < 1 / 2 \<or> q * eps = 1 / 2" using qe by linarith
    moreover have "q * eps \<noteq> 1 / 2"
    proof
      assume "q * eps = 1 / 2"
      moreover have "q * eps \<le> 2 ^ 30 * eps" using qV eps0 by (simp add: mult_right_mono)
      moreover have "eps \<le> of_nat (2 ^ 21 + 2) * unit_roundoff"
      proof -
        have "2 * n + 2 \<le> 2 ^ 21 + 2" using len by simp
        then have "(of_nat (2 * n + 2) :: rat) \<le> of_nat (2 ^ 21 + 2)" by (simp only: of_nat_le_iff)
        then show ?thesis by (simp add: eps_def rel_error_def n_def unit_roundoff_def)
      qed
      ultimately show False by (simp add: unit_roundoff_def)
    qed
    ultimately show ?thesis using yq by linarith
  qed
  have f1: "\<lfloor>q\<rfloor> - 1 \<le> \<lfloor>y\<rfloor>"
  proof -
    have fq: "of_int \<lfloor>q\<rfloor> \<le> q" by (rule of_int_floor_le)
    have "(of_int (\<lfloor>q\<rfloor> - 1) :: rat) = of_int \<lfloor>q\<rfloor> - 1" by simp
    with near_lo fq have "of_int (\<lfloor>q\<rfloor> - 1) \<le> y" by linarith
    then show ?thesis by (simp only: le_floor_iff)
  qed
  have f2: "\<lfloor>y\<rfloor> \<le> \<lfloor>q\<rfloor> + 1"
  proof -
    have fq: "q < of_int \<lfloor>q\<rfloor> + 1" by linarith
    have "(of_int (\<lfloor>q\<rfloor> + 2) :: rat) = of_int \<lfloor>q\<rfloor> + 2" by simp
    with near_hi fq have "y < of_int (\<lfloor>q\<rfloor> + 2)" by linarith
    then have "\<lfloor>y\<rfloor> < \<lfloor>q\<rfloor> + 2" by (simp only: floor_less_iff)
    then show ?thesis by simp
  qed
  have f3: "\<lfloor>q * (1 - eps)\<rfloor> \<le> \<lfloor>y\<rfloor>" using lo by (rule floor_mono)
  have f4: "\<lfloor>y\<rfloor> \<le> \<lfloor>q / (1 - eps)\<rfloor>" using hi by (rule floor_mono)
  show ?thesis
    using res f1 f2 f3 f4
    by (simp add: weighted_mean_def q_def A_def C_def eps_def)
qed

lemma weighted_mean_singleton:
  "est_confidence e \<noteq> 0 \<Longrightarrow> weighted_mean [e] = est_value e"
  by (simp add: weighted_mean_def weighted_total_def confidence_total_def)

lemma sum_loop_append: "sum_loop (xs @ ys) acc = sum_loop ys (sum_loop xs acc)"
  by (induction xs acc rule: sum_loop.induct) simp_all

lemma normal_rangeI:
  assumes "0 \<le> x" and "x = 0 \<or> 1 / 2 ^ 112 \<le> x" and "x \<le> 2 ^ 112"
  shows "normal_range x"
proof (cases "x = 0")
  case True
  then show ?thesis by (simp add: normal_range_def)
next
  case False
  then have lo: "1 / 2 ^ 112 \<le> x" using assms(2) by simp
  have "(1 :: rat) / 2 ^ 1022 \<le> 1 / 2 ^ 112" by simp
  then have a: "1 / 2 ^ 1022 \<le> x" using lo by (rule order_trans)
  have "(2 :: rat) ^ 112 \<le> 2 ^ 1023" by simp
  with assms(3) have b: "x \<le> 2 ^ 1023" by (rule order_trans)
  show ?thesis using a b assms(1) by (simp add: normal_range_def)
qed

lemma confidence_total_upper:
  "list_all (\<lambda>e. est_confidence e \<le> m) es \<Longrightarrow> confidence_total es \<le> of_nat (length es) * m"
  by (induction es) (simp_all add: confidence_total_def algebra_simps)

lemma product_range:
  assumes "bounded_estimate e"
  shows "0 \<le> est_value e * est_confidence e"
    and "est_value e * est_confidence e = 0 \<or> 1 / 2 ^ 60 \<le> est_value e * est_confidence e"
    and "est_value e * est_confidence e \<le> 2 ^ 60"
proof -
  define v where "v = est_value e"
  define c where "c = est_confidence e"
  have v: "v = 0 \<or> 1 / 2 ^ 30 \<le> v" and vu: "v \<le> 2 ^ 30"
    and c: "1 / 2 ^ 30 \<le> c" and cu: "c \<le> 2 ^ 30"
    using assms by (simp_all add: bounded_estimate_def v_def c_def)
  have c0: "0 \<le> c" using c by (rule order_trans [rotated]) simp
  have v0: "0 \<le> v"
  proof (cases "v = 0")
    case True
    then show ?thesis by simp
  next
    case False
    then have "1 / 2 ^ 30 \<le> v" using v by simp
    moreover have "(0 :: rat) \<le> 1 / 2 ^ 30" by simp
    ultimately show ?thesis by (rule order_trans [rotated])
  qed
  show "0 \<le> est_value e * est_confidence e" using v0 c0 by (simp add: v_def c_def)
  have "v * c = 0 \<or> 1 / 2 ^ 60 \<le> v * c"
  proof (cases "v = 0")
    case True
    then show ?thesis by simp
  next
    case False
    then have lo: "1 / 2 ^ 30 \<le> v" using v by simp
    have "(1 / 2 ^ 30) * (1 / 2 ^ 30) \<le> v * c"
      using lo c by (intro mult_mono) simp_all
    then show ?thesis by simp
  qed
  then show "est_value e * est_confidence e = 0 \<or> 1 / 2 ^ 60 \<le> est_value e * est_confidence e"
    by (simp only: v_def c_def)
  have "v * c \<le> 2 ^ 30 * 2 ^ 30" using vu cu v0 c0 by (intro mult_mono) simp_all
  then show "est_value e * est_confidence e \<le> 2 ^ 60" by (simp add: v_def c_def)
qed

lemma weighted_total_zero_or:
  "list_all bounded_estimate es \<Longrightarrow> weighted_total es = 0 \<or> 1 / 2 ^ 60 \<le> weighted_total es"
proof (induction es)
  case Nil
  show ?case by (simp add: weighted_total_def)
next
  case (Cons e es)
  then have be: "bounded_estimate e" and ih: "weighted_total es = 0 \<or> 1 / 2 ^ 60 \<le> weighted_total es"
    by simp_all
  have w0: "0 \<le> weighted_total es"
  proof (cases "weighted_total es = 0")
    case True
    then show ?thesis by simp
  next
    case False
    then have "1 / 2 ^ 60 \<le> weighted_total es" using ih by simp
    moreover have "(0 :: rat) \<le> 1 / 2 ^ 60" by simp
    ultimately show ?thesis by (rule order_trans [rotated])
  qed
  have eq: "weighted_total (e # es) = est_value e * est_confidence e + weighted_total es"
    by (simp add: weighted_total_def)
  show ?case
    unfolding eq using product_range(1,2) [OF be] ih w0 by linarith
qed

lemma half_le_power:
  fixes d :: rat
  assumes "d = 1 - unit_roundoff" and "m \<le> 2 ^ 20 + 1"
  shows "1 / 2 \<le> d ^ m"
proof -
  have u: "(0 :: rat) \<le> unit_roundoff" "unit_roundoff \<le> (1 :: rat)"
    by (simp_all add: unit_roundoff_def)
  have "(of_nat m :: rat) \<le> of_nat (2 ^ 20 + 1)" using assms(2) by (simp only: of_nat_le_iff)
  then have "(of_nat m :: rat) * unit_roundoff \<le> of_nat (2 ^ 20 + 1) * unit_roundoff"
    using u(1) by (rule mult_right_mono)
  also have "\<dots> \<le> 1 / 2" by (simp add: unit_roundoff_def)
  finally have "1 / 2 \<le> 1 - of_nat m * unit_roundoff" by simp
  also have "\<dots> \<le> (1 - unit_roundoff) ^ m" by (rule bernoulli_rat [OF u])
  finally show ?thesis by (simp add: assms(1))
qed

lemma sum_loop_range:
  assumes all: "list_all bounded_estimate es" and len: "length es \<le> 2 ^ 20"
  shows "\<exists>w t. sum_loop es (0, 0) = (w, t) \<and> 0 \<le> w \<and> (w = 0 \<or> 1 / 2 ^ 61 \<le> w) \<and>
           w \<le> 2 ^ 81 \<and> 0 \<le> t \<and> t \<le> 2 ^ 51 \<and> (es \<noteq> [] \<longrightarrow> 1 / 2 ^ 31 \<le> t)"
proof -
  define d :: rat where "d = 1 - unit_roundoff"
  define n where "n = length es"
  define A where "A = weighted_total es"
  define C where "C = confidence_total es"
  have nonneg: "list_all (\<lambda>e. 0 \<le> est_value e \<and> 0 \<le> est_confidence e) es"
    using all by (induction es) (auto simp: bounded_estimate_def intro: order_trans [rotated])
  have cl: "list_all (\<lambda>e. 1 / 2 ^ 30 \<le> est_confidence e) es"
    using all by (induction es) (auto simp: bounded_estimate_def)
  have cu: "list_all (\<lambda>e. est_confidence e \<le> 2 ^ 30) es"
    using all by (induction es) (auto simp: bounded_estimate_def)
  have vu: "list_all (\<lambda>e. est_value e \<le> 2 ^ 30 \<and> 0 \<le> est_confidence e) es"
    using all by (induction es) (auto simp: bounded_estimate_def intro: order_trans [rotated])
  have nr: "(of_nat n :: rat) \<le> 2 ^ 20"
  proof -
    have "(of_nat n :: rat) \<le> of_nat (2 ^ 20)" using len unfolding n_def by (simp only: of_nat_le_iff)
    then show ?thesis by simp
  qed
  have h1: "1 / 2 \<le> d ^ (n + 1)" using len by (intro half_le_power) (simp_all add: d_def n_def)
  have h0: "1 / 2 \<le> d ^ n" using len by (intro half_le_power) (simp_all add: d_def n_def)
  have A0: "0 \<le> A" unfolding A_def by (rule weighted_total_nonneg [OF nonneg])
  have Az: "A = 0 \<or> 1 / 2 ^ 60 \<le> A" unfolding A_def by (rule weighted_total_zero_or [OF all])
  have Cl: "of_nat n * (1 / 2 ^ 30) \<le> C" unfolding C_def n_def by (rule confidence_total_lower [OF cl])
  have Cu: "C \<le> of_nat n * 2 ^ 30" unfolding C_def n_def by (rule confidence_total_upper [OF cu])
  have C0: "0 \<le> C" using Cl by (rule order_trans [rotated]) simp
  have Cu': "C \<le> 2 ^ 50"
  proof -
    have "of_nat n * (2 :: rat) ^ 30 \<le> 2 ^ 20 * 2 ^ 30" using nr by (intro mult_right_mono) simp_all
    with Cu show ?thesis by simp
  qed
  have Au: "A \<le> 2 ^ 80"
  proof -
    have "A \<le> 2 ^ 30 * C" unfolding A_def C_def by (rule weighted_total_upper [OF vu])
    also have "\<dots> \<le> 2 ^ 30 * 2 ^ 50" using Cu' by (intro mult_left_mono) simp_all
    finally show ?thesis by simp
  qed
  from sum_loop_bounds [OF nonneg, of 0 0 0 0 0]
  obtain w t where loop: "sum_loop es (0, 0) = (w, t)" and w0: "0 \<le> w" and t0: "0 \<le> t"
    and w_lo: "A * d ^ (n + 1) \<le> w" and w_hi: "w * d ^ (n + 1) \<le> A"
    and t_lo: "C * d ^ n \<le> t" and t_hi: "t * d ^ n \<le> C"
    by (auto simp: d_def n_def A_def C_def)
  have w2: "w * (1 / 2) \<le> A"
  proof -
    have "w * (1 / 2) \<le> w * d ^ (n + 1)" using h1 w0 by (rule mult_left_mono)
    then show ?thesis using w_hi by (rule order_trans)
  qed
  have t2: "t * (1 / 2) \<le> C"
  proof -
    have "t * (1 / 2) \<le> t * d ^ n" using h0 t0 by (rule mult_left_mono)
    then show ?thesis using t_hi by (rule order_trans)
  qed
  have A2: "A * (1 / 2) \<le> w"
  proof -
    have "A * (1 / 2) \<le> A * d ^ (n + 1)" using h1 A0 by (rule mult_left_mono)
    then show ?thesis using w_lo by (rule order_trans)
  qed
  have C2: "C * (1 / 2) \<le> t"
  proof -
    have "C * (1 / 2) \<le> C * d ^ n" using h0 C0 by (rule mult_left_mono)
    then show ?thesis using t_lo by (rule order_trans)
  qed
  have wz: "w = 0 \<or> 1 / 2 ^ 61 \<le> w"
    using Az
  proof
    assume "A = 0"
    then show ?thesis using w2 w0 by simp
  next
    assume "1 / 2 ^ 60 \<le> A"
    then show ?thesis using A2 by simp
  qed
  have wu: "w \<le> 2 ^ 81" using w2 Au by simp
  have tu: "t \<le> 2 ^ 51" using t2 Cu' by simp
  have tl: "1 / 2 ^ 31 \<le> t" if "es \<noteq> []"
  proof -
    have "1 \<le> n" using that by (cases es) (simp_all add: n_def)
    then have "(1 :: rat) \<le> of_nat n" by simp
    then have "(1 :: rat) * (1 / 2 ^ 30) \<le> of_nat n * (1 / 2 ^ 30)" by (intro mult_right_mono) simp_all
    then have "1 / 2 ^ 30 \<le> C" using Cl by simp
    then show ?thesis using C2 by simp
  qed
  show ?thesis using loop w0 wz wu t0 tu tl by blast
qed

lemma js_mul_range:
  assumes "bounded_estimate e"
  shows "0 \<le> js_mul (est_value e) (est_confidence e)"
    and "js_mul (est_value e) (est_confidence e) = 0 \<or>
         1 / 2 ^ 61 \<le> js_mul (est_value e) (est_confidence e)"
    and "js_mul (est_value e) (est_confidence e) \<le> 2 ^ 61"
proof -
  define x where "x = est_value e * est_confidence e"
  define p where "p = fl x"
  have x0: "0 \<le> x" and xz: "x = 0 \<or> 1 / 2 ^ 60 \<le> x" and xu: "x \<le> 2 ^ 60"
    unfolding x_def by (rule product_range [OF assms])+
  have p0: "0 \<le> p" unfolding p_def using x0 by (rule fl_nonneg)
  have lo: "x * (1 - unit_roundoff) \<le> p" unfolding p_def using x0 by (rule fl_lower)
  have hi: "p * (1 - unit_roundoff) \<le> x" unfolding p_def using x0 by (rule fl_upper)
  have half: "(1 :: rat) / 2 \<le> 1 - unit_roundoff" by (simp add: unit_roundoff_def)
  have lo2: "x * (1 / 2) \<le> p"
  proof -
    have "x * (1 / 2) \<le> x * (1 - unit_roundoff)" using half x0 by (rule mult_left_mono)
    then show ?thesis using lo by (rule order_trans)
  qed
  have hi2: "p * (1 / 2) \<le> x"
  proof -
    have "p * (1 / 2) \<le> p * (1 - unit_roundoff)" using half p0 by (rule mult_left_mono)
    then show ?thesis using hi by (rule order_trans)
  qed
  have pz: "p = 0 \<or> 1 / 2 ^ 61 \<le> p"
    using xz
  proof
    assume "x = 0"
    then show ?thesis by (simp add: p_def fl_def)
  next
    assume "1 / 2 ^ 60 \<le> x"
    then show ?thesis using lo2 by simp
  qed
  have pu: "p \<le> 2 ^ 61" using hi2 xu by simp
  show "0 \<le> js_mul (est_value e) (est_confidence e)"
    using p0 by (simp add: js_mul_def p_def x_def)
  show "js_mul (est_value e) (est_confidence e) = 0 \<or>
         1 / 2 ^ 61 \<le> js_mul (est_value e) (est_confidence e)"
    using pz by (simp add: js_mul_def p_def x_def)
  show "js_mul (est_value e) (est_confidence e) \<le> 2 ^ 61"
    using pu by (simp add: js_mul_def p_def x_def)
qed

lemma normal_range_widen:
  assumes "0 \<le> x" and "x = 0 \<or> 1 / 2 ^ k \<le> x" and "x \<le> 2 ^ m" and "k \<le> 112" and "m \<le> 112"
  shows "normal_range x"
proof (rule normal_rangeI [OF assms(1)])
  show "x = 0 \<or> 1 / 2 ^ 112 \<le> x"
  proof (cases "x = 0")
    case True
    then show ?thesis by simp
  next
    case False
    then have lo: "1 / 2 ^ k \<le> x" using assms(2) by simp
    have "(2 :: rat) ^ k \<le> 2 ^ 112" using assms(4) by (intro power_increasing) simp_all
    then have "(1 :: rat) / 2 ^ 112 \<le> 1 / 2 ^ k" by (intro frac_le) simp_all
    then have "1 / 2 ^ 112 \<le> x" using lo by (rule order_trans)
    then show ?thesis by (rule disjI2)
  qed
  have "(2 :: rat) ^ m \<le> 2 ^ 112" using assms(5) by (intro power_increasing) simp_all
  with assms(3) show "x \<le> 2 ^ 112" by (rule order_trans)
qed

lemma results_in_range_prefix:
  "list_all bounded_estimate (pre @ es) \<Longrightarrow> length (pre @ es) \<le> 2 ^ 20 \<Longrightarrow>
   results_in_range es (sum_loop pre (0, 0))"
proof (induction es arbitrary: pre)
  case Nil
  show ?case by (cases "sum_loop pre (0, 0)") simp
next
  case (Cons e es)
  have all_pre: "list_all bounded_estimate pre" and be: "bounded_estimate e"
    using Cons.prems(1) by simp_all
  have len_pre: "length pre \<le> 2 ^ 20" using Cons.prems(2) by simp
  from sum_loop_range [OF all_pre len_pre]
  obtain w t where loop: "sum_loop pre (0, 0) = (w, t)" and w0: "0 \<le> w"
    and wz: "w = 0 \<or> 1 / 2 ^ 61 \<le> w" and wu: "w \<le> 2 ^ 81"
    and t0: "0 \<le> t" and tu: "t \<le> 2 ^ 51"
    by blast
  define p where "p = js_mul (est_value e) (est_confidence e)"
  define c where "c = est_confidence e"
  have p0: "0 \<le> p" and pz: "p = 0 \<or> 1 / 2 ^ 61 \<le> p" and pu: "p \<le> 2 ^ 61"
    unfolding p_def by (rule js_mul_range [OF be])+
  have cl: "1 / 2 ^ 30 \<le> c" and cu: "c \<le> 2 ^ 30"
    using be by (simp_all add: bounded_estimate_def c_def)
  have r1: "normal_range (est_value e * est_confidence e)"
    by (rule normal_range_widen [OF product_range [OF be]]) simp_all
  have r2: "normal_range (w + p)"
  proof (rule normal_range_widen [where k = 61 and m = 82])
    show "0 \<le> w + p" using w0 p0 by simp
    show "w + p = 0 \<or> 1 / 2 ^ 61 \<le> w + p" using w0 p0 wz pz by linarith
    show "w + p \<le> 2 ^ 82" using wu pu by simp
  qed simp_all
  have r3: "normal_range (t + c)"
  proof (rule normal_range_widen [where k = 30 and m = 52])
    have "(0 :: rat) \<le> 1 / 2 ^ 30" by simp
    then have c0: "0 \<le> c" using cl by (rule order_trans)
    show "0 \<le> t + c" using t0 c0 by simp
    show "t + c = 0 \<or> 1 / 2 ^ 30 \<le> t + c" using t0 cl by simp
    show "t + c \<le> 2 ^ 52" using tu cu by simp
  qed simp_all
  have "sum_loop (pre @ [e]) (0, 0) = (js_add w p, js_add t c)"
    by (simp add: sum_loop_append loop p_def c_def)
  moreover have "results_in_range es (sum_loop (pre @ [e]) (0, 0))"
    using Cons.prems by (intro Cons.IH) simp_all
  ultimately have r4: "results_in_range es (js_add w p, js_add t c)" by simp
  show ?case
    unfolding loop using r1 r2 r3 r4 by (simp add: p_def c_def)
qed

lemma combineEstimates_in_range:
  assumes ne: "estimates \<noteq> []" and b: "bounded_estimates estimates"
  shows "all_results_in_range estimates"
proof -
  from b have len: "length estimates \<le> 2 ^ 20" and all: "list_all bounded_estimate estimates"
    by (simp_all add: bounded_estimates_def)
  have "results_in_range estimates (sum_loop [] (0, 0))"
    using all len by (intro results_in_range_prefix) simp_all
  then have r: "results_in_range estimates (0, 0)" by simp
  from sum_loop_range [OF all len] ne
  obtain w t where loop: "sum_loop estimates (0, 0) = (w, t)" and w0: "0 \<le> w"
    and wz: "w = 0 \<or> 1 / 2 ^ 61 \<le> w" and wu: "w \<le> 2 ^ 81"
    and tu: "t \<le> 2 ^ 51" and tl: "1 / 2 ^ 31 \<le> t"
    by blast
  have "(0 :: rat) < 1 / 2 ^ 31" by simp
  then have tpos: "0 < t" using tl by (rule less_le_trans)
  have q: "normal_range (w / t)"
  proof (rule normal_range_widen [where k = 112 and m = 112])
    show "0 \<le> w / t" using w0 tpos by simp
    show "w / t = 0 \<or> 1 / 2 ^ 112 \<le> w / t"
    proof (cases "w = 0")
      case True
      then show ?thesis by simp
    next
      case False
      then have lo: "1 / 2 ^ 61 \<le> w" using wz by simp
      have "1 / 2 ^ 112 * t \<le> 1 / 2 ^ 112 * 2 ^ 51" using tu by (intro mult_left_mono) simp_all
      also have "\<dots> = 1 / 2 ^ 61" by simp
      also have "\<dots> \<le> w" by (rule lo)
      finally have "1 / 2 ^ 112 \<le> w / t" using tpos by (simp add: pos_le_divide_eq)
      then show ?thesis by simp
    qed
    have "w \<le> 2 ^ 81" by (rule wu)
    also have "\<dots> = 2 ^ 112 * (1 / 2 ^ 31)" by simp
    also have "\<dots> \<le> 2 ^ 112 * t" using tl by (intro mult_left_mono) simp_all
    finally show "w / t \<le> 2 ^ 112" using tpos by (simp add: pos_divide_le_eq)
  qed simp_all
  show ?thesis
    unfolding all_results_in_range_def loop using r tpos q by simp
qed

text \<open>
  C4, as the code has it. The empty list gives 0 and the two-element example of the
  specification gives 83. For every non-empty list of estimates in range, every result that
  the computation rounds is in the range of normal doubles, and the result \<open>r\<close> is
  within 1 of the floor of the exact confidence-weighted mean \<open>q\<close>; more precisely
  \<open>\<lfloor>q (1 - \<epsilon>)\<rfloor> \<le> r \<le> \<lfloor>q / (1 - \<epsilon>)\<rfloor>\<close> for the relative error \<open>\<epsilon> = (2n + 2) * 2\<^sup>-\<^sup>5\<^sup>3\<close>.
  In particular a singleton \<open>{v, c}\<close> in range gives \<open>\<lfloor>v\<rfloor> - 1\<close>, \<open>\<lfloor>v\<rfloor>\<close> or \<open>\<lfloor>v\<rfloor> + 1\<close>.
\<close>

theorem combineEstimates_weighted_mean:
  "combineEstimates [] = Some 0 \<and>
   combineEstimates [\<lparr>est_value = 100, est_confidence = js_lit (8 / 10)\<rparr>,
                     \<lparr>est_value = 50, est_confidence = js_lit (4 / 10)\<rparr>] = Some 83 \<and>
   (estimates \<noteq> [] \<longrightarrow> bounded_estimates estimates \<longrightarrow>
      all_results_in_range estimates \<and>
      (\<exists>r. combineEstimates estimates = Some r \<and>
           \<lfloor>weighted_mean estimates\<rfloor> - 1 \<le> r \<and> r \<le> \<lfloor>weighted_mean estimates\<rfloor> + 1 \<and>
           \<lfloor>weighted_mean estimates * (1 - rel_error estimates)\<rfloor> \<le> r \<and>
           r \<le> \<lfloor>weighted_mean estimates / (1 - rel_error estimates)\<rfloor>)) \<and>
   (bounded_estimates [e] \<longrightarrow>
      (\<exists>r. combineEstimates [e] = Some r \<and>
           \<lfloor>est_value e\<rfloor> - 1 \<le> r \<and> r \<le> \<lfloor>est_value e\<rfloor> + 1))"
proof (intro conjI impI)
  show "combineEstimates [] = Some 0"
    by (simp add: combineEstimates_def)
  show "combineEstimates [\<lparr>est_value = 100, est_confidence = js_lit (8 / 10)\<rparr>,
                          \<lparr>est_value = 50, est_confidence = js_lit (4 / 10)\<rparr>] = Some 83"
    by code_simp
next
  assume "estimates \<noteq> []" and "bounded_estimates estimates"
  then show "all_results_in_range estimates"
    by (rule combineEstimates_in_range)
next
  assume "estimates \<noteq> []" and "bounded_estimates estimates"
  then show "\<exists>r. combineEstimates estimates = Some r \<and>
           \<lfloor>weighted_mean estimates\<rfloor> - 1 \<le> r \<and> r \<le> \<lfloor>weighted_mean estimates\<rfloor> + 1 \<and>
           \<lfloor>weighted_mean estimates * (1 - rel_error estimates)\<rfloor> \<le> r \<and>
           r \<le> \<lfloor>weighted_mean estimates / (1 - rel_error estimates)\<rfloor>"
    by (rule combineEstimates_bounded)
next
  assume b: "bounded_estimates [e]"
  then have "(0 :: rat) < 1 / 2 ^ 30" and "1 / 2 ^ 30 \<le> est_confidence e"
    by (simp_all add: bounded_estimates_def bounded_estimate_def)
  then have "est_confidence e \<noteq> 0" by linarith
  then have m: "weighted_mean [e] = est_value e" by (rule weighted_mean_singleton)
  from combineEstimates_bounded [OF _ b] obtain r where
    "combineEstimates [e] = Some r" and "\<lfloor>weighted_mean [e]\<rfloor> - 1 \<le> r"
    and "r \<le> \<lfloor>weighted_mean [e]\<rfloor> + 1" by auto
  then show "\<exists>r. combineEstimates [e] = Some r \<and>
           \<lfloor>est_value e\<rfloor> - 1 \<le> r \<and> r \<le> \<lfloor>est_value e\<rfloor> + 1"
    unfolding m by blast
qed

theorem combineEstimates_weighted_mean_witness:
  "bounded_estimates [\<lparr>est_value = 100, est_confidence = js_lit (8 / 10)\<rparr>,
                      \<lparr>est_value = 50, est_confidence = js_lit (4 / 10)\<rparr>] \<and>
   bounded_estimates [\<lparr>est_value = 31, est_confidence = js_lit (3 / 10)\<rparr>] \<and>
   (\<exists>r. combineEstimates [\<lparr>est_value = 100, est_confidence = js_lit (8 / 10)\<rparr>,
                           \<lparr>est_value = 50, est_confidence = js_lit (4 / 10)\<rparr>] = Some r \<and>
        \<lfloor>weighted_mean [\<lparr>est_value = 100, est_confidence = js_lit (8 / 10)\<rparr>,
                        \<lparr>est_value = 50, est_confidence = js_lit (4 / 10)\<rparr>]\<rfloor> - 1 \<le> r \<and>
        r \<le> \<lfloor>weighted_mean [\<lparr>est_value = 100, est_confidence = js_lit (8 / 10)\<rparr>,
                             \<lparr>est_value = 50, est_confidence = js_lit (4 / 10)\<rparr>]\<rfloor> + 1) \<and>
   (\<exists>r. combineEstimates [\<lparr>est_value = 31, est_confidence = js_lit (3 / 10)\<rparr>] = Some r \<and>
        \<lfloor>31 :: rat\<rfloor> - 1 \<le> r \<and> r \<le> \<lfloor>31 :: rat\<rfloor> + 1)"
proof -
  let ?two = "[\<lparr>est_value = 100, est_confidence = js_lit (8 / 10)\<rparr>,
               \<lparr>est_value = 50, est_confidence = js_lit (4 / 10)\<rparr>]"
  let ?one = "\<lparr>est_value = 31, est_confidence = js_lit (3 / 10)\<rparr>"
  have d08: "js_lit (8 / 10) = 3602879701896397 / 4503599627370496" by code_simp
  have d04: "js_lit (4 / 10) = 3602879701896397 / 9007199254740992" by code_simp
  have d03: "js_lit (3 / 10) = 5404319552844595 / 18014398509481984" by code_simp
  have b2: "bounded_estimates ?two"
    unfolding bounded_estimates_def bounded_estimate_def d08 d04 by simp
  have b1: "bounded_estimates [?one]"
    unfolding bounded_estimates_def bounded_estimate_def d03 by simp
  have ne: "?two \<noteq> []" by simp
  note th = combineEstimates_weighted_mean [of ?two ?one]
  have g2: "\<exists>r. combineEstimates ?two = Some r \<and>
           \<lfloor>weighted_mean ?two\<rfloor> - 1 \<le> r \<and> r \<le> \<lfloor>weighted_mean ?two\<rfloor> + 1 \<and>
           \<lfloor>weighted_mean ?two * (1 - rel_error ?two)\<rfloor> \<le> r \<and>
           r \<le> \<lfloor>weighted_mean ?two / (1 - rel_error ?two)\<rfloor>"
    by (rule th [THEN conjunct2, THEN conjunct2, THEN conjunct1, rule_format, OF ne b2,
          THEN conjunct2])
  have g1: "\<exists>r. combineEstimates [?one] = Some r \<and>
           \<lfloor>est_value ?one\<rfloor> - 1 \<le> r \<and> r \<le> \<lfloor>est_value ?one\<rfloor> + 1"
    by (rule th [THEN conjunct2, THEN conjunct2, THEN conjunct2, rule_format, OF b1])
  from g2 obtain r where r: "combineEstimates ?two = Some r"
    "\<lfloor>weighted_mean ?two\<rfloor> - 1 \<le> r" "r \<le> \<lfloor>weighted_mean ?two\<rfloor> + 1"
    by (elim exE conjE)
  have h2: "\<exists>r. combineEstimates ?two = Some r \<and>
           \<lfloor>weighted_mean ?two\<rfloor> - 1 \<le> r \<and> r \<le> \<lfloor>weighted_mean ?two\<rfloor> + 1"
    by (intro exI [of _ r] conjI r)
  have v: "est_value ?one = 31" by (simp only: estimate.select_convs)
  have h1: "\<exists>r. combineEstimates [?one] = Some r \<and>
           \<lfloor>31 :: rat\<rfloor> - 1 \<le> r \<and> r \<le> \<lfloor>31 :: rat\<rfloor> + 1"
    using g1 unfolding v .
  show ?thesis by (intro conjI b2 b1 h2 h1)
qed


text \<open>
  The claim as written says that the result is the floor of the exact weighted mean, and
  that a singleton \<open>{v, c}\<close> with \<open>c > 0\<close> yields \<open>floor(v)\<close>. With the weight 0.3 (the
  weight the orchestrator gives a low-confidence estimate) and the value 31, the product
  \<open>31 * 0.3\<close> rounds to 9.299999999999999 and the quotient to 30.999999999999996, so the
  result is 30.
\<close>

theorem combineEstimates_singleton_counterexample:
  "0 < js_lit (3 / 10) \<and>
   combineEstimates [\<lparr>est_value = 31, est_confidence = js_lit (3 / 10)\<rparr>] = Some 30 \<and>
   combineEstimates [\<lparr>est_value = 31, est_confidence = js_lit (3 / 10)\<rparr>] \<noteq> Some \<lfloor>31 :: rat\<rfloor>"
  by code_simp

subsection \<open>The profile page\<close>

text \<open>
  C3 says that a profile page reporting the range ``201-500 employees'' gives the midpoint
  350 as total and, with no search-derived count, \<open>floor(350 * 0.35) = 122\<close> engineers.
  In \<open>scrapeCompanyPage\<close> the range pattern is only tried after the three single-number
  patterns, and the first of them already matches the tail ``500 employees'' of the range:
  the total is 500, the upper end, and the estimate \<open>floor(500 * 0.35) = 175\<close>. Likewise
  ``51-200 employees'' gives 200, where the comment in the source and the specification
  expect 125.
\<close>

theorem range_page_takes_upper_end:
  "estimateEngineeringCount page_201_500 ''example'' None =
     \<lparr>totalEmployees = Some 500, engineeringCount = Some 175, hc_confidence = Low,
        hc_source = ''linkedin_public_search''\<rparr> \<and>
   scrapeCompanyPage page_51_200 ''https://www.linkedin.com/company/example'' = Some 200 \<and>
   range_midpoint ''201-500 employees'' = Some 350"
  by code_simp

subsection \<open>Bounds on the scraped counts\<close>

lemma digit_value_nonneg: "is_digit c \<Longrightarrow> 0 \<le> digit_value c"
  by (simp add: is_digit_def digit_value_def)

lemma foldl_digits_nonneg:
  "\<forall>c\<in>set ds. is_digit c \<Longrightarrow> 0 \<le> a \<Longrightarrow> 0 \<le> foldl (\<lambda>n c. 10 * n + digit_value c) a ds"
proof (induction ds arbitrary: a)
  case Nil
  then show ?case by simp
next
  case (Cons d ds)
  then have "0 \<le> 10 * a + digit_value d" using digit_value_nonneg [of d] by simp
  with Cons show ?case by simp
qed

lemma parseInt_nonneg: "parseInt s = Some n \<Longrightarrow> 0 \<le> n"
proof -
  assume p: "parseInt s = Some n"
  have all: "\<forall>c\<in>set (takeWhile is_digit s). is_digit c"
    by (auto dest: set_takeWhileD)
  from p have "n = foldl (\<lambda>n c. 10 * n + digit_value c) 0 (takeWhile is_digit s)"
    by (auto simp: parseInt_def split: list.splits)
  with foldl_digits_nonneg [OF all, of 0] show ?thesis by simp
qed

lemma count_from_patterns_bounds:
  "count_from_patterns ps html b = Some c \<Longrightarrow> 0 < c \<and> c < b"
  by (induction ps) (simp_all split: option.splits if_splits)

lemma range_midpoint_nonneg: "range_midpoint html = Some n \<Longrightarrow> 0 \<le> n"
proof -
  assume r: "range_midpoint html = Some n"
  then obtain mn mx where mn: "0 \<le> mn" and mx: "0 \<le> mx"
    and n: "n = Math_floor ((of_int mn + of_int mx) / 2)"
    by (auto simp: range_midpoint_def split: option.splits dest: parseInt_nonneg)
  from mn mx have "(0 :: rat) \<le> (of_int mn + of_int mx) / 2" by simp
  then show ?thesis unfolding n Math_floor_def by simp
qed

lemma scrapeCompanyPage_nonneg: "scrapeCompanyPage net url = Some n \<Longrightarrow> 0 \<le> n"
  by (auto simp: scrapeCompanyPage_def split: option.splits
           dest: count_from_patterns_bounds range_midpoint_nonneg)

lemma searchPeopleCount_bounds:
  "0 \<le> searchPeopleCount net company keyword \<and> searchPeopleCount net company keyword < 100000"
  by (auto simp: searchPeopleCount_def split: option.splits dest: count_from_patterns_bounds)

lemma keyword_loop_bounds:
  "0 \<le> m \<Longrightarrow> m < 100000 \<Longrightarrow>
   0 \<le> fst (keyword_loop net company ks (m, b)) \<and> fst (keyword_loop net company ks (m, b)) < 100000"
proof (induction ks arbitrary: m b)
  case Nil
  then show ?case by simp
next
  case (Cons k ks)
  show ?case
    using Cons.IH [of "searchPeopleCount net company k" k] Cons.IH [of m b] Cons.prems
      searchPeopleCount_bounds [of net company k]
    by (simp add: Let_def)
qed

lemma maxEngineerCount_bounds:
  "0 \<le> maxEngineerCount net companyName linkedinUrl \<and>
   maxEngineerCount net companyName linkedinUrl < 100000"
  unfolding maxEngineerCount_def by (rule keyword_loop_bounds) simp_all

subsection \<open>The clamp\<close>

lemma floor_two_fifths: "\<lfloor>4 / 10 * of_int t :: rat\<rfloor> = (2 * t) div 5"
proof -
  have "(4 / 10 * of_int t :: rat) = of_int (2 * t) / of_int 5" by simp
  then show ?thesis by (simp only: floor_divide_of_int_eq)
qed

lemma clamp_value:
  assumes "0 < t" and "t < 100000"
  shows "Math_floor (js_mul (of_int t) (js_lit (4 / 10))) = (2 * t) div 5"
proof (cases "3 \<le> t")
  case True
  then show ?thesis using assms by (simp only: floor_clamp)
next
  case False
  with assms have "t = 1 \<or> t = 2" by linarith
  then show ?thesis using floor_clamp_small by auto
qed

text \<open>
  C2, as the code has it. Let \<open>t\<close> be the total the estimate reports, known (not 0), and
  \<open>e > 0\<close> the search-derived count, the maximum over the five keyword searches. The
  engineering count, when the estimate has one, never exceeds \<open>t\<close>. If \<open>e > t\<close> the
  count is \<open>\<lfloor>0.4 t\<rfloor>\<close>, computed in double arithmetic and equal to the exact floor, and
  the tier is low; but the estimate has no engineering count at all when that floor is 0,
  since the result keeps a count only if it is positive. If \<open>e \<le> t\<close> the count is \<open>e\<close>
  and the tier is medium exactly when \<open>e > 10\<close>.
\<close>

theorem estimateEngineeringCount_clamp:
  assumes t: "totalEmployees (estimateEngineeringCount net companyName linkedinUrl) = Some t"
    and known: "t \<noteq> 0"
    and e: "maxEngineerCount net companyName linkedinUrl = e"
    and found: "0 < e"
  shows "(\<forall>n. engineeringCount (estimateEngineeringCount net companyName linkedinUrl) = Some n
            \<longrightarrow> n \<le> t) \<and>
         (t < e \<longrightarrow>
            engineeringCount (estimateEngineeringCount net companyName linkedinUrl)
              = (if 0 < \<lfloor>4 / 10 * of_int t :: rat\<rfloor> then Some \<lfloor>4 / 10 * of_int t :: rat\<rfloor> else None) \<and>
            hc_confidence (estimateEngineeringCount net companyName linkedinUrl) = Low) \<and>
         (e \<le> t \<longrightarrow>
            engineeringCount (estimateEngineeringCount net companyName linkedinUrl) = Some e \<and>
            hc_confidence (estimateEngineeringCount net companyName linkedinUrl)
              = (if 10 < e then Medium else Low))"
proof -
  let ?est = "estimateEngineeringCount net companyName linkedinUrl"
  have sc: "scrapeCompanyPage net (companyPageUrl companyName linkedinUrl) = Some t"
    using t by (simp add: estimateEngineeringCount_def heuristics_def Let_def split: if_splits prod.splits)
  have tpos: "0 < t" using scrapeCompanyPage_nonneg [OF sc] known by simp
  have eb: "e < 100000" using maxEngineerCount_bounds [of net companyName linkedinUrl] e by simp
  have est: "?est = heuristics (Some t) e"
    by (simp add: estimateEngineeringCount_def sc e)
  define f where "f = (2 * t) div 5"
  have ff: "\<lfloor>4 / 10 * of_int t :: rat\<rfloor> = f"
    unfolding f_def by (rule floor_two_fifths)
  have goal: "(\<forall>n. engineeringCount ?est = Some n \<longrightarrow> n \<le> t) \<and>
         (t < e \<longrightarrow> engineeringCount ?est = (if 0 < f then Some f else None) \<and>
            hc_confidence ?est = Low) \<and>
         (e \<le> t \<longrightarrow> engineeringCount ?est = Some e \<and>
            hc_confidence ?est = (if 10 < e then Medium else Low))"
  proof (cases "t < e")
    case True
    then have tb: "t < 100000" using eb by simp
    have cv: "Math_floor (js_mul (of_int t) (js_lit (4 / 10))) = f"
      unfolding f_def by (rule clamp_value [OF tpos tb])
    have fle: "f \<le> t" unfolding f_def using tpos by simp
    show ?thesis
      using True found known fle cv
      by (simp add: est heuristics_def truthy_num_def)
  next
    case False
    then show ?thesis
      using found known by (simp add: est heuristics_def truthy_num_def)
  qed
  show ?thesis unfolding ff by (rule goal)
qed

lemma pages_50_80_estimate:
  "estimateEngineeringCount pages_50_80 ''example'' None =
     \<lparr>totalEmployees = Some 50, engineeringCount = Some 20, hc_confidence = Low,
        hc_source = ''linkedin_public_search''\<rparr>"
  by code_simp

lemma pages_50_80_count: "maxEngineerCount pages_50_80 ''example'' None = 80"
  by code_simp

theorem estimateEngineeringCount_clamp_witness:
  "totalEmployees (estimateEngineeringCount pages_50_80 ''example'' None) = Some 50 \<and>
   maxEngineerCount pages_50_80 ''example'' None = 80 \<and>
   engineeringCount (estimateEngineeringCount pages_50_80 ''example'' None) = Some 20 \<and>
   hc_confidence (estimateEngineeringCount pages_50_80 ''example'' None) = Low"
proof -
  have t: "totalEmployees (estimateEngineeringCount pages_50_80 ''example'' None) = Some 50"
    by (simp add: pages_50_80_estimate)
  have fl: "\<lfloor>4 / 10 * of_int 50 :: rat\<rfloor> = 20"
    by (simp only: floor_two_fifths)
  from estimateEngineeringCount_clamp [OF t _ pages_50_80_count] fl
  have "engineeringCount (estimateEngineeringCount pages_50_80 ''example'' None) = Some 20 \<and>
        hc_confidence (estimateEngineeringCount pages_50_80 ''example'' None) = Low"
    by simp
  with t pages_50_80_count show ?thesis by simp
qed

text \<open>
  The claim as written gives \<open>floor(0.4 * t)\<close> as the returned value whenever \<open>e > t\<close>.
  For a page reporting ``2 employees'' and a search reporting 5 results the clamp computes
  \<open>floor(0.8) = 0\<close>, and the estimate is returned without an engineering count.
\<close>

lemma pages_2_5_estimate:
  "estimateEngineeringCount pages_2_5 ''example'' None =
     \<lparr>totalEmployees = Some 2, engineeringCount = None, hc_confidence = Low,
        hc_source = ''linkedin_public_search''\<rparr>"
  by code_simp

lemma pages_2_5_count: "maxEngineerCount pages_2_5 ''example'' None = 5"
  by code_simp

theorem estimateEngineeringCount_clamp_counterexample:
  "totalEmployees (estimateEngineeringCount pages_2_5 ''example'' None) = Some 2 \<and>
   maxEngineerCount pages_2_5 ''example'' None = 5 \<and>
   engineeringCount (estimateEngineeringCount pages_2_5 ''example'' None) = None \<and>
   engineeringCount (estimateEngineeringCount pages_2_5 ''example'' None)
     \<noteq> Some \<lfloor>4 / 10 * 2 :: rat\<rfloor>"
  by (simp add: pages_2_5_estimate pages_2_5_count)

section \<open>Properties of the matcher\<close>

lemma matches_Seq_elim:
  assumes "st' \<in> set (matches (Seq a b) (s, caps))"
  obtains mid where "mid \<in> set (matches a (s, caps))" and "st' \<in> set (matches b mid)"
  using assms by (auto simp: matches.simps(3))

lemma matches_Star_elim:
  assumes "st' \<in> set (matches (Star r) (s, caps))"
  obtains "st' = (s, caps)"
  | mid where "mid \<in> set (matches r (s, caps))" and "length (fst mid) < length s"
      and "st' \<in> set (matches (Star r) mid)"
proof -
  from assms
  have "st' \<in> set (concat (map (\<lambda>st. matches (Star r) st)
                (filter (\<lambda>st. length (fst st) < length s) (matches r (s, caps))))
              @ [(s, caps)])"
    by (simp only: matches.simps(5))
  then show thesis using that by auto
qed

lemma matches_Group_elim:
  assumes "st' \<in> set (matches (Group r) (s, caps))"
  obtains m where "m \<in> set (matches r (s, caps))"
    and "st' = (fst m, snd m @ [take (length s - length (fst m)) s])"
  using assms by (auto simp: matches.simps(6))

lemma matches_length:
  "st' \<in> set (matches r st) \<Longrightarrow>
     length (fst st') \<le> length (fst st) \<and> (consumes r \<longrightarrow> length (fst st') < length (fst st))"
proof (induction r st arbitrary: st' rule: matches.induct)
  case (1 p s caps)
  then show ?case by (auto simp: matches.simps(1) split: list.splits if_splits)
next
  case (2 s caps)
  then show ?case by (simp add: matches.simps(2))
next
  case (3 a b s caps)
  from "3.prems" obtain mid where mid: "mid \<in> set (matches a (s, caps))"
    and st': "st' \<in> set (matches b mid)" by (rule matches_Seq_elim)
  from "3.IH"(1) [OF mid] "3.IH"(2) [OF mid st'] show ?case by auto
next
  case (4 a b s caps)
  from "4.prems" have "st' \<in> set (matches a (s, caps)) \<or> st' \<in> set (matches b (s, caps))"
    by (simp add: matches.simps(4))
  then show ?case using "4.IH" (1) [of st'] "4.IH" (2) [of st'] by auto
next
  case (5 r s caps)
  from "5.prems" show ?case
  proof (cases rule: matches_Star_elim)
    case 1
    then show ?thesis by simp
  next
    case (2 mid)
    have "mid \<in> set (filter (\<lambda>st. length (fst st) < length s) (matches r (s, caps)))"
      using 2 by simp
    from "5.IH"(2) [OF this 2(3)] 2(2) show ?thesis by simp
  qed
next
  case (6 r s caps)
  from "6.prems" obtain m where m: "m \<in> set (matches r (s, caps))"
    and st': "st' = (fst m, snd m @ [take (length s - length (fst m)) s])"
    by (rule matches_Group_elim)
  from "6.IH" [OF m] st' show ?case by simp
qed


lemma matches_captures:
  "st' \<in> set (matches r st) \<Longrightarrow> groups_consume r \<Longrightarrow> [] \<notin> set (snd st) \<Longrightarrow>
     [] \<notin> set (snd st')"
proof (induction r st arbitrary: st' rule: matches.induct)
  case (1 p s caps)
  then show ?case by (auto simp: matches.simps(1) split: list.splits if_splits)
next
  case (2 s caps)
  then show ?case by (simp add: matches.simps(2))
next
  case (3 a b s caps)
  from "3.prems"(1) obtain mid where mid: "mid \<in> set (matches a (s, caps))"
    and st': "st' \<in> set (matches b mid)" by (rule matches_Seq_elim)
  have "[] \<notin> set (snd mid)" using "3.IH"(1) [OF mid] "3.prems"(2,3) by simp
  then show ?case using "3.IH"(2) [OF mid st'] "3.prems"(2) by simp
next
  case (4 a b s caps)
  from "4.prems"(1) have "st' \<in> set (matches a (s, caps)) \<or> st' \<in> set (matches b (s, caps))"
    by (simp add: matches.simps(4))
  then show ?case using "4.IH" (1) [of st'] "4.IH" (2) [of st'] "4.prems"(2,3) by auto
next
  case (5 r s caps)
  from "5.prems"(1) show ?case
  proof (cases rule: matches_Star_elim)
    case 1
    then show ?thesis using "5.prems"(3) by simp
  next
    case (2 mid)
    have f: "mid \<in> set (filter (\<lambda>st. length (fst st) < length s) (matches r (s, caps)))"
      using 2 by simp
    have "[] \<notin> set (snd mid)" using "5.IH"(1) [OF 2(1)] "5.prems"(2,3) by simp
    then show ?thesis using "5.IH"(2) [OF f 2(3)] "5.prems"(2) by simp
  qed
next
  case (6 r s caps)
  from "6.prems"(1) obtain m where m: "m \<in> set (matches r (s, caps))"
    and st': "st' = (fst m, snd m @ [take (length s - length (fst m)) s])"
    by (rule matches_Group_elim)
  have c: "[] \<notin> set (snd m)" using "6.IH" [OF m] "6.prems"(2,3) by simp
  have "length (fst m) < length s" using matches_length [OF m] "6.prems"(2) by simp
  then have "take (length s - length (fst m)) s \<noteq> []" by auto
  with c st' show ?case by auto
qed

lemma search_captures:
  "search r s = Some (gs, rest) \<Longrightarrow> groups_consume r \<Longrightarrow> [] \<notin> set (tl gs)"
proof (induction s)
  case Nil
  show ?case
  proof (cases "matches r ([], [])")
    case Nil
    with Nil.prems show ?thesis by simp
  next
    case (Cons st sts)
    then have "st \<in> set (matches r ([], []))" by simp
    from matches_captures [OF this] Nil.prems have "[] \<notin> set (snd st)" by simp
    with Cons Nil.prems show ?thesis by auto
  qed
next
  case (Cons c cs)
  show ?case
  proof (cases "matches r (c # cs, [])")
    case Nil
    with Cons show ?thesis by simp
  next
    case (Cons st sts)
    then have "st \<in> set (matches r (c # cs, []))" by simp
    from matches_captures [OF this] Cons.prems have "[] \<notin> set (snd st)" by simp
    with Cons Cons.prems show ?thesis by auto
  qed
qed

lemma exec_all_captures:
  "gs \<in> set (exec_all r s) \<Longrightarrow> groups_consume r \<Longrightarrow> [] \<notin> set (tl gs)"
proof (induction r s rule: exec_all.induct)
  case (1 r s)
  show ?case
  proof (cases "search r s")
    case None
    with "1.prems" show ?thesis by (simp add: exec_all.simps [of r s])
  next
    case (Some m)
    obtain g rest where m: "m = (g, rest)" by (cases m)
    have g: "[] \<notin> set (tl g)" using search_captures [of r s g rest] Some m "1.prems" by simp
    show ?thesis
    proof (cases "gs = g")
      case True
      with g show ?thesis by simp
    next
      case False
      with "1.prems" Some m have "length rest < length s" and "gs \<in> set (exec_all r rest)"
        by (auto simp add: exec_all.simps [of r s] split: if_splits)
      with "1.IH" [OF Some m [symmetric]] "1.prems" show ?thesis
        by simp
    qed
  qed
qed

section \<open>Properties of the mobile app detector\<close>

lemma groups_consume_seqs: "groups_consume (seqs rs) = list_all groups_consume rs"
  by (induction rs rule: seqs.induct) simp_all

lemma consumes_seqs: "consumes (seqs rs) = list_ex consumes rs"
  by (induction rs rule: seqs.induct) simp_all

lemma groups_consume_lit_i [simp]: "groups_consume (lit_i w)"
  by (simp add: lit_i_def groups_consume_seqs list_all_iff)

lemma groups_consume_basic [simp]:
  "groups_consume (Opt (lit_i w))" "groups_consume letter_i" "groups_consume quote"
  "groups_consume not_gt"
  "consumes (Plus path_char)" "consumes (Plus digit)" "consumes (Plus package_char)"
  "consumes (Plus not_quote)"
  "groups_consume (Plus path_char)" "groups_consume (Plus digit)"
  "groups_consume (Plus package_char)" "groups_consume (Plus not_quote)"
  by (simp_all add: Opt_def Plus_def letter_i_def quote_def not_gt_def path_char_def digit_def
        package_char_def not_quote_def)

lemma groups_consume_store_regex: "groups_consume (store_regex host)"
  by (simp add: store_regex_def groups_consume_seqs)

lemma groups_consume_playStoreRegex: "groups_consume playStoreRegex"
  by (simp add: playStoreRegex_def groups_consume_seqs)

lemma groups_consume_meta_regex:
  "consumes (Plus body) \<Longrightarrow> groups_consume (Plus body) \<Longrightarrow>
     groups_consume (meta_regex attr name prefix body)"
  by (simp add: meta_regex_def groups_consume_seqs)

lemma exec_all_group1:
  "groups_consume r \<Longrightarrow> m0 # m1 # ms \<in> set (exec_all r s) \<Longrightarrow> m1 \<noteq> []"
  using exec_all_captures [of "m0 # m1 # ms" r s] by auto

lemma exec_all_group2:
  "groups_consume r \<Longrightarrow> m0 # m1 # m2 # ms \<in> set (exec_all r s) \<Longrightarrow> m2 \<noteq> []"
  using exec_all_captures [of "m0 # m1 # m2 # ms" r s] by auto

lemma store_app_appId:
  "a \<in> set (concat (map (store_app how) (exec_all (store_regex host) html))) \<Longrightarrow>
     appId a \<noteq> Some []"
proof -
  assume "a \<in> set (concat (map (store_app how) (exec_all (store_regex host) html)))"
  then obtain gs where gs: "gs \<in> set (exec_all (store_regex host) html)"
    and a: "a \<in> set (store_app how gs)" by auto
  from a obtain m0 m1 m2 ms where g: "gs = m0 # m1 # m2 # ms" and ai: "appId a = Some m2"
    by (cases "(how, gs)" rule: store_app.cases) auto
  from exec_all_group2 [OF groups_consume_store_regex] gs g have "m2 \<noteq> []" by blast
  with ai show ?thesis by simp
qed

lemma play_app_appId:
  "a \<in> set (concat (map play_app (exec_all playStoreRegex html))) \<Longrightarrow> appId a \<noteq> Some []"
proof -
  assume "a \<in> set (concat (map play_app (exec_all playStoreRegex html)))"
  then obtain gs where gs: "gs \<in> set (exec_all playStoreRegex html)"
    and a: "a \<in> set (play_app gs)" by auto
  from a obtain m0 m1 ms where g: "gs = m0 # m1 # ms" and ai: "appId a = Some m1"
    by (cases gs rule: play_app.cases) auto
  from exec_all_group1 [OF groups_consume_playStoreRegex] gs g have "m1 \<noteq> []" by blast
  with ai show ?thesis by simp
qed

lemma ios_banner_app_appId:
  assumes "groups_consume r"
    and "a \<in> set (concat (map (ios_banner_app name how) (exec_all r html)))"
  shows "appId a \<noteq> Some []"
proof -
  from assms(2) obtain gs where gs: "gs \<in> set (exec_all r html)"
    and a: "a \<in> set (ios_banner_app name how gs)" by auto
  from a obtain m0 m1 ms where g: "gs = m0 # m1 # ms" and ai: "appId a = Some m1"
    by (cases "(name, how, gs)" rule: ios_banner_app.cases) auto
  from exec_all_group1 [OF assms(1)] gs g have "m1 \<noteq> []" by blast
  with ai show ?thesis by simp
qed

lemma android_banner_app_appId:
  assumes "groups_consume r"
    and "a \<in> set (concat (map (android_banner_app how) (exec_all r html)))"
  shows "appId a \<noteq> Some []"
proof -
  from assms(2) obtain gs where gs: "gs \<in> set (exec_all r html)"
    and a: "a \<in> set (android_banner_app how gs)" by auto
  from a obtain m0 m1 ms where g: "gs = m0 # m1 # ms" and ai: "appId a = Some m1"
    by (cases "(how, gs)" rule: android_banner_app.cases) auto
  from exec_all_group1 [OF assms(1)] gs g have "m1 \<noteq> []" by blast
  with ai show ?thesis by simp
qed

lemma universal_link_app_appId: "a \<in> set (universal_link_app gs) \<Longrightarrow> appId a = None"
  by (cases gs rule: universal_link_app.cases) auto

lemma intent_app_appId: "a \<in> set (intent_app gs) \<Longrightarrow> appId a = None"
  by (cases gs rule: intent_app.cases) auto

lemma deep_link_appId:
  assumes "a \<in> set (detectDeepLinks html domain)"
  shows "appId a = None"
proof -
  from assms
  have "a \<in> set (if js_includes html ''apple-touch-icon''
                  then (case search appArgumentRegex html of
                          None \<Rightarrow> []
                        | Some (groups, rest) \<Rightarrow> universal_link_app groups)
                  else [])
        \<or> a \<in> set (concat (map intent_app (exec_all intentRegex html)))"
    unfolding detectDeepLinks_def set_append Un_iff .
  then show ?thesis
  proof
    assume "a \<in> set (if js_includes html ''apple-touch-icon''
                  then (case search appArgumentRegex html of
                          None \<Rightarrow> []
                        | Some (groups, rest) \<Rightarrow> universal_link_app groups)
                  else [])"
    then have u: "a \<in> set (case search appArgumentRegex html of
                          None \<Rightarrow> []
                        | Some (groups, rest) \<Rightarrow> universal_link_app groups)"
      by (cases "js_includes html ''apple-touch-icon''") simp_all
    show ?thesis
    proof (cases "search appArgumentRegex html")
      case None
      with u show ?thesis by simp
    next
      case (Some m)
      obtain gs rest where m: "m = (gs, rest)" by (cases m)
      from u Some m have "a \<in> set (universal_link_app gs)" by simp
      then show ?thesis by (rule universal_link_app_appId)
    qed
  next
    assume "a \<in> set (concat (map intent_app (exec_all intentRegex html)))"
    then obtain gs where "a \<in> set (intent_app gs)" by auto
    then show ?thesis by (rule intent_app_appId)
  qed
qed

lemma groups_consume_meta_digit: "groups_consume (meta_regex attr name prefix digit)"
  by (rule groups_consume_meta_regex) simp_all

lemma groups_consume_meta_not_quote: "groups_consume (meta_regex attr name prefix not_quote)"
  by (rule groups_consume_meta_regex) simp_all

lemma collected_apps_appId:
  assumes "a \<in> set (collected_apps html domain)"
  shows "appId a \<noteq> Some []"
proof -
  from assms consider
      "a \<in> set (concat (map (store_app ''App Store URL'')
                (exec_all (store_regex ''apps.apple.com'') html)))"
    | "a \<in> set (concat (map (store_app ''iTunes URL'')
                (exec_all (store_regex ''itunes.apple.com'') html)))"
    | "a \<in> set (concat (map play_app (exec_all playStoreRegex html)))"
    | "a \<in> set (concat (map (ios_banner_app ''Mobile App'' ''iOS Smart Banner'')
               (exec_all (meta_regex ''name'' ''apple-itunes-app'' ''app-id='' digit) html)))"
    | "a \<in> set (concat (map (ios_banner_app ''iOS App'' ''iOS App Links Meta'')
               (exec_all (meta_regex ''property'' ''al:ios:app_store_id'' [] digit) html)))"
    | "a \<in> set (concat (map (android_banner_app ''Android App Links Meta'')
               (exec_all (meta_regex ''property'' ''al:android:package'' [] not_quote) html)))"
    | "a \<in> set (concat (map (android_banner_app ''Google Play Meta Tag'')
               (exec_all (meta_regex ''name'' ''google-play-app'' ''app-id='' not_quote) html)))"
    | "a \<in> set (detectDeepLinks html domain)"
    unfolding collected_apps_def detectAppPatterns_def detectAppStoreLinks_def
      detectPlayStoreLinks_def detectSmartBanners_def set_append Un_iff list.set(1) empty_iff
    by blast
  then show ?thesis
  proof cases
    case 1 then show ?thesis by (rule store_app_appId)
  next
    case 2 then show ?thesis by (rule store_app_appId)
  next
    case 3 then show ?thesis by (rule play_app_appId)
  next
    case 4 then show ?thesis by (rule ios_banner_app_appId [OF groups_consume_meta_digit])
  next
    case 5 then show ?thesis by (rule ios_banner_app_appId [OF groups_consume_meta_digit])
  next
    case 6 then show ?thesis by (rule android_banner_app_appId [OF groups_consume_meta_not_quote])
  next
    case 7 then show ?thesis by (rule android_banner_app_appId [OF groups_consume_meta_not_quote])
  next
    case 8 then show ?thesis using deep_link_appId by simp
  qed
qed

lemma dedup_loop_keys:
  "app_key ` set (dedup_loop apps seen) = app_key ` set apps - seen"
  by (induction apps arbitrary: seen) auto

lemma dedup_loop_subset: "set (dedup_loop apps seen) \<subseteq> set apps"
  by (induction apps arbitrary: seen) auto

lemma dedup_loop_distinct: "distinct (map app_key (dedup_loop apps seen))"
proof (induction apps arbitrary: seen)
  case Nil
  show ?case by simp
next
  case (Cons app apps)
  have "app_key app \<notin> app_key ` set (dedup_loop apps (insert (app_key app) seen))"
    unfolding dedup_loop_keys by simp
  with Cons show ?case by simp
qed

lemma dedup_loop_first:
  "a \<in> set (dedup_loop apps seen) \<Longrightarrow> find (\<lambda>b. app_key b = app_key a) apps = Some a"
proof (induction apps arbitrary: seen)
  case Nil
  then show ?case by simp
next
  case (Cons app apps)
  show ?case
  proof (cases "a = app")
    case True
    then show ?thesis by simp
  next
    case False
    show ?thesis
    proof (cases "app_key app \<in> seen")
      case True
      with Cons.prems have in_rest: "a \<in> set (dedup_loop apps seen)" by simp
      then have "app_key a \<in> app_key ` set apps - seen"
        using dedup_loop_keys [of apps seen] by blast
      with True have "app_key app \<noteq> app_key a" by auto
      with Cons.IH [OF in_rest] show ?thesis by simp
    next
      case notseen: False
      with Cons.prems \<open>a \<noteq> app\<close>
      have in_rest: "a \<in> set (dedup_loop apps (insert (app_key app) seen))" by simp
      then have "app_key a \<in> app_key ` set apps - insert (app_key app) seen"
        using dedup_loop_keys [of apps "insert (app_key app) seen"] by blast
      then have "app_key app \<noteq> app_key a" by auto
      with Cons.IH [OF in_rest] show ?thesis by simp
    qed
  qed
qed

lemma app_key_spec_key:
  assumes "appId a \<noteq> Some []" and "appId b \<noteq> Some []"
  shows "app_key a = app_key b \<longleftrightarrow> spec_key a = spec_key b"
proof -
  have ia: "(case appId a of None \<Rightarrow> appUrl a | Some i \<Rightarrow> if i = [] then appUrl a else i)
              = identifier_or_url a"
    using assms(1) by (simp add: identifier_or_url_def split: option.splits)
  have ib: "(case appId b of None \<Rightarrow> appUrl b | Some i \<Rightarrow> if i = [] then appUrl b else i)
              = identifier_or_url b"
    using assms(2) by (simp add: identifier_or_url_def split: option.splits)
  show ?thesis
    unfolding app_key_def ia ib spec_key_def
    by (cases "platform a"; cases "platform b") (simp_all add: platform_name_def)
qed

lemma deduplicateApps_spec:
  assumes ok: "\<And>a. a \<in> set apps \<Longrightarrow> appId a \<noteq> Some []"
  shows "distinct (map spec_key (deduplicateApps apps))"
    and "set (map spec_key (deduplicateApps apps)) = set (map spec_key apps)"
    and "map (\<lambda>a. find (\<lambda>b. spec_key b = spec_key a) apps) (deduplicateApps apps)
           = map Some (deduplicateApps apps)"
proof -
  let ?u = "deduplicateApps apps"
  have sub: "set ?u \<subseteq> set apps" unfolding deduplicateApps_def by (rule dedup_loop_subset)
  have eqv: "\<And>a b. a \<in> set apps \<Longrightarrow> b \<in> set apps \<Longrightarrow>
               (app_key a = app_key b) = (spec_key a = spec_key b)"
    using app_key_spec_key ok by blast
  have "distinct (map app_key ?u)" unfolding deduplicateApps_def by (rule dedup_loop_distinct)
  then have "distinct ?u" and inj: "inj_on app_key (set ?u)"
    by (simp_all add: distinct_map)
  have "inj_on spec_key (set ?u)"
    using inj eqv sub unfolding inj_on_def by blast
  with \<open>distinct ?u\<close> show "distinct (map spec_key ?u)" by (simp add: distinct_map)
  have keys: "app_key ` set ?u = app_key ` set apps"
    unfolding deduplicateApps_def dedup_loop_keys by simp
  have "spec_key ` set ?u = spec_key ` set apps"
  proof
    show "spec_key ` set ?u \<subseteq> spec_key ` set apps" using sub by blast
    show "spec_key ` set apps \<subseteq> spec_key ` set ?u"
    proof
      fix k assume "k \<in> spec_key ` set apps"
      then obtain a where a: "a \<in> set apps" and k: "k = spec_key a" by blast
      then have "app_key a \<in> app_key ` set ?u" using keys by blast
      then obtain b where b: "b \<in> set ?u" and "app_key b = app_key a" by force
      then have "spec_key b = spec_key a" using eqv [of b a] a sub by blast
      with k have "k = spec_key b" by simp
      with b show "k \<in> spec_key ` set ?u" by blast
    qed
  qed
  then show "set (map spec_key ?u) = set (map spec_key apps)" by simp
  show "map (\<lambda>a. find (\<lambda>b. spec_key b = spec_key a) apps) ?u = map Some ?u"
  proof (rule map_cong [OF refl])
    fix a assume a: "a \<in> set ?u"
    then have first: "find (\<lambda>b. app_key b = app_key a) apps = Some a"
      unfolding deduplicateApps_def by (rule dedup_loop_first)
    have "find (\<lambda>b. spec_key b = spec_key a) apps = find (\<lambda>b. app_key b = app_key a) apps"
      by (rule find_cong [OF refl]) (use eqv a sub in blast)
    with first show "find (\<lambda>b. spec_key b = spec_key a) apps = Some a" by simp
  qed
qed

text \<open>
  C10. For every page, the apps that \<open>detectMobileApps\<close> returns carry pairwise distinct
  keys (platform, store identifier if present else URL); every key collected by the five
  methods is the key of a returned app; each returned app is the first collected app with
  its key; \<open>iosApps\<close> and \<open>androidApps\<close> are the returned apps of either platform, together
  all of them and with none in common; and each flag says that its list is non-empty.
\<close>

theorem detectMobileApps_deduplicated:
  "distinct (map spec_key (allApps (detectMobileApps html domain))) \<and>
   set (map spec_key (allApps (detectMobileApps html domain)))
     = set (map spec_key (collected_apps html domain)) \<and>
   map (\<lambda>a. find (\<lambda>b. spec_key b = spec_key a) (collected_apps html domain))
       (allApps (detectMobileApps html domain))
     = map Some (allApps (detectMobileApps html domain)) \<and>
   iosApps (detectMobileApps html domain)
     = filter (\<lambda>a. platform a = Ios) (allApps (detectMobileApps html domain)) \<and>
   androidApps (detectMobileApps html domain)
     = filter (\<lambda>a. platform a = Android) (allApps (detectMobileApps html domain)) \<and>
   set (iosApps (detectMobileApps html domain)) \<union> set (androidApps (detectMobileApps html domain))
     = set (allApps (detectMobileApps html domain)) \<and>
   set (iosApps (detectMobileApps html domain)) \<inter> set (androidApps (detectMobileApps html domain))
     = {} \<and>
   hasIosApp (detectMobileApps html domain) = (iosApps (detectMobileApps html domain) \<noteq> []) \<and>
   hasAndroidApp (detectMobileApps html domain)
     = (androidApps (detectMobileApps html domain) \<noteq> [])"
proof -
  let ?apps = "collected_apps html domain"
  have all: "allApps (detectMobileApps html domain) = deduplicateApps ?apps"
    by (simp add: detectMobileApps_def Let_def)
  have ios: "iosApps (detectMobileApps html domain)
               = filter (\<lambda>a. platform a = Ios) (deduplicateApps ?apps)"
    by (simp add: detectMobileApps_def Let_def)
  have android: "androidApps (detectMobileApps html domain)
               = filter (\<lambda>a. platform a = Android) (deduplicateApps ?apps)"
    by (simp add: detectMobileApps_def Let_def)
  have flags: "hasIosApp (detectMobileApps html domain)
                 = (filter (\<lambda>a. platform a = Ios) (deduplicateApps ?apps) \<noteq> [])"
      "hasAndroidApp (detectMobileApps html domain)
                 = (filter (\<lambda>a. platform a = Android) (deduplicateApps ?apps) \<noteq> [])"
    by (simp_all add: detectMobileApps_def Let_def)
  have part: "set (filter (\<lambda>a. platform a = Ios) (deduplicateApps ?apps))
                \<union> set (filter (\<lambda>a. platform a = Android) (deduplicateApps ?apps))
              = set (deduplicateApps ?apps)"
  proof -
    have "\<And>a. platform a = Ios \<or> platform a = Android"
      by (metis platform.exhaust)
    then show ?thesis by auto
  qed
  have disj: "set (filter (\<lambda>a. platform a = Ios) (deduplicateApps ?apps))
                \<inter> set (filter (\<lambda>a. platform a = Android) (deduplicateApps ?apps)) = {}"
    by auto
  have ok: "\<And>a. a \<in> set ?apps \<Longrightarrow> appId a \<noteq> Some []"
    by (rule collected_apps_appId)
  note d = deduplicateApps_spec [OF ok]
  show ?thesis
    unfolding all ios android flags
    by (intro conjI d part disj refl)
qed

section \<open>Properties of the job scraper\<close>

lemma distinct_techSkills: "distinct techSkills"
  unfolding techSkills_def by simp

lemma map_set_keys:
  "map fst (map_set k v m) = (if k \<in> set (map fst m) then map fst m else map fst m @ [k])"
  by (induction m) force+

lemma map_set_key_set: "set (map fst (map_set k v m)) = insert k (set (map fst m))"
  unfolding map_set_keys by auto

lemma map_set_map_of: "map_of (map_set k v m) = (map_of m)(k \<mapsto> v)"
  by (induction m) auto

lemma skills_loop_keys:
  "distinct skills \<Longrightarrow>
   map fst (skills_loop skills t m) =
     map fst m @ filter (\<lambda>s. js_includes t (toLowerCase s) \<and> s \<notin> set (map fst m)) skills"
proof (induction skills arbitrary: m)
  case Nil
  show ?case by simp
next
  case (Cons skill skills)
  then have d: "distinct skills" and n: "skill \<notin> set skills" by auto
  show ?case
  proof (cases "js_includes t (toLowerCase skill)")
    case False
    then show ?thesis using Cons.IH [OF d, of m] by simp
  next
    case True
    define m' where "m' = map_set skill (get_or_zero m skill + 1) m"
    have keys: "set (map fst m') = insert skill (set (map fst m))"
      unfolding m'_def by (rule map_set_key_set)
    have f: "filter (\<lambda>s. js_includes t (toLowerCase s) \<and> s \<notin> set (map fst m')) skills =
             filter (\<lambda>s. js_includes t (toLowerCase s) \<and> s \<notin> set (map fst m)) skills"
      using n unfolding keys by (intro filter_cong) auto
    have k: "map fst m' = (if skill \<in> set (map fst m) then map fst m else map fst m @ [skill])"
      unfolding m'_def by (rule map_set_keys)
    have "skills_loop (skill # skills) t m = skills_loop skills t m'"
      using True unfolding m'_def by simp
    then have "map fst (skills_loop (skill # skills) t m) =
        map fst m' @ filter (\<lambda>s. js_includes t (toLowerCase s) \<and> s \<notin> set (map fst m)) skills"
      using Cons.IH [OF d, of m'] f by simp
    then show ?thesis using True k by simp
  qed
qed

lemma skills_loop_map_of:
  "distinct skills \<Longrightarrow>
   map_of (skills_loop skills t m) s =
     (if s \<in> set skills \<and> js_includes t (toLowerCase s)
      then Some (get_or_zero m s + 1) else map_of m s)"
proof (induction skills arbitrary: m)
  case Nil
  show ?case by simp
next
  case (Cons skill skills)
  then have d: "distinct skills" and n: "skill \<notin> set skills" by auto
  show ?case
    using Cons.IH [OF d] n
    by (auto simp: map_set_map_of get_or_zero_def)
qed

lemma jobs_loop_append: "jobs_loop (xs @ ys) m = jobs_loop ys (jobs_loop xs m)"
  by (induction xs arbitrary: m) auto

lemma jobs_loop_snoc:
  "jobs_loop (jobs @ [job]) [] = skills_loop techSkills (posting_text job) (jobs_loop jobs [])"
  by (simp add: jobs_loop_append)

lemma mention_count_snoc:
  "mention_count (jobs @ [job]) s = mention_count jobs s + (if mentions_skill job s then 1 else 0)"
  by (simp add: mention_count_def)

lemma mention_count_pos: "0 < mention_count jobs s \<longleftrightarrow> (\<exists>job \<in> set jobs. mentions_skill job s)"
  unfolding mention_count_def by (induction jobs) auto

lemma takeWhile_not_lt: "\<exists>x \<in> set xs. Q x \<Longrightarrow> length (takeWhile (\<lambda>x. \<not> Q x) xs) < length xs"
  by (induction xs) auto

lemma first_mention_lt:
  "0 < mention_count jobs s \<Longrightarrow> first_mention jobs s < length jobs"
  unfolding first_mention_def mention_count_pos by (rule takeWhile_not_lt)

lemma takeWhile_not_append: 
  "\<exists>x \<in> set xs. Q x \<Longrightarrow> takeWhile (\<lambda>x. \<not> Q x) (xs @ ys) = takeWhile (\<lambda>x. \<not> Q x) xs"
  by (induction xs) auto

lemma first_mention_snoc_old:
  "0 < mention_count jobs s \<Longrightarrow> first_mention (jobs @ [job]) s = first_mention jobs s"
  unfolding first_mention_def mention_count_pos by (simp add: takeWhile_not_append)

lemma first_mention_snoc_new:
  "mention_count jobs s = 0 \<Longrightarrow> mentions_skill job s \<Longrightarrow>
   first_mention (jobs @ [job]) s = length jobs"
proof -
  assume "mention_count jobs s = 0" and m: "mentions_skill job s"
  then have "\<not> (\<exists>j \<in> set jobs. mentions_skill j s)"
    using mention_count_pos [of jobs s] by simp
  then show ?thesis
    unfolding first_mention_def using m by simp
qed

lemma takeWhile_neq_nth:
  "distinct xs \<Longrightarrow> i < length xs \<Longrightarrow> length (takeWhile (\<lambda>s. s \<noteq> xs ! i) xs) = i"
proof (induction xs arbitrary: i)
  case Nil
  then show ?case by simp
next
  case (Cons x xs)
  show ?case
  proof (cases i)
    case 0
    then show ?thesis by simp
  next
    case (Suc j)
    then have "xs ! j \<in> set xs" using Cons.prems by simp
    then have "x \<noteq> xs ! j" using Cons.prems by auto
    then show ?thesis using Suc Cons by simp
  qed
qed

lemma catalog_index_sorted:
  "sorted_wrt (\<lambda>a b. catalog_index a < catalog_index b) techSkills"
  unfolding sorted_wrt_iff_nth_less catalog_index_def
  using takeWhile_neq_nth [OF distinct_techSkills] by simp

lemma insort_key_stable:
  fixes f :: "'a \<Rightarrow> 'k::linorder"
  assumes "sorted_wrt (\<lambda>a b. f a < f b \<or> (f a = f b \<and> R a b)) ys" and "\<forall>y \<in> set ys. R x y"
  shows "sorted_wrt (\<lambda>a b. f a < f b \<or> (f a = f b \<and> R a b)) (insort_key f x ys)"
  using assms
proof (induction ys)
  case Nil
  then show ?case by simp
next
  case (Cons y ys)
  show ?case
  proof (cases "f x \<le> f y")
    case True
    have "\<forall>z \<in> set ys. f y \<le> f z" using Cons.prems(1) by auto
    then have "\<forall>z \<in> set (y # ys). f x \<le> f z" using True by auto
    then have "\<forall>z \<in> set (y # ys). f x < f z \<or> (f x = f z \<and> R x z)"
      using Cons.prems(2) by (auto simp: le_less)
    then show ?thesis using True Cons.prems(1) by simp
  next
    case False
    then have lt: "f y < f x" by simp
    have ih: "sorted_wrt (\<lambda>a b. f a < f b \<or> (f a = f b \<and> R a b)) (insort_key f x ys)"
      using Cons by simp
    show ?thesis using False lt ih Cons.prems(1) by (auto simp: set_insort_key)
  qed
qed

lemma sort_key_stable_wrt:
  fixes f :: "'a \<Rightarrow> 'k::linorder"
  shows "sorted_wrt R xs \<Longrightarrow>
         sorted_wrt (\<lambda>a b. f a < f b \<or> (f a = f b \<and> R a b)) (sort_key f xs)"
proof (induction xs)
  case Nil
  then show ?case by simp
next
  case (Cons x xs)
  then show ?case by (simp add: sort_key_simps insort_key_stable)
qed

lemma mention_count_Nil: "mention_count [] s = 0"
  by (simp add: mention_count_def)

lemma jobs_loop_invariant:
  "distinct (map fst (jobs_loop jobs [])) \<and>
   set (map fst (jobs_loop jobs [])) = {s \<in> set techSkills. 0 < mention_count jobs s} \<and>
   (\<forall>s \<in> set (map fst (jobs_loop jobs [])).
      map_of (jobs_loop jobs []) s = Some (mention_count jobs s)) \<and>
   sorted_wrt (first_before jobs) (map fst (jobs_loop jobs []))"
proof (induction jobs rule: rev_induct)
  case Nil
  show ?case by (simp add: mention_count_Nil)
next
  case (snoc job jobs)
  define L where "L = jobs_loop jobs []"
  define L' where "L' = jobs_loop (jobs @ [job]) []"
  define new where
    "new = filter (\<lambda>s. mentions_skill job s \<and> s \<notin> set (map fst L)) techSkills"
  have dL: "distinct (map fst L)"
    and sL: "set (map fst L) = {s \<in> set techSkills. 0 < mention_count jobs s}"
    and mL: "\<And>s. s \<in> set (map fst L) \<Longrightarrow> map_of L s = Some (mention_count jobs s)"
    and oL: "sorted_wrt (first_before jobs) (map fst L)"
    using snoc unfolding L_def by blast+
  have L'_eq: "L' = skills_loop techSkills (posting_text job) L"
    unfolding L'_def L_def by (rule jobs_loop_snoc)
  have keys: "map fst L' = map fst L @ new"
    unfolding L'_eq new_def mentions_skill_def
    by (rule skills_loop_keys [OF distinct_techSkills])
  have new_set: "set new = {s \<in> set techSkills. mentions_skill job s \<and> mention_count jobs s = 0}"
    unfolding new_def sL by auto
  have d: "distinct (map fst L')"
    unfolding keys using dL distinct_techSkills by (auto simp: new_def)
  have s: "set (map fst L') = {s \<in> set techSkills. 0 < mention_count (jobs @ [job]) s}"
    unfolding keys set_append sL new_set mention_count_snoc by auto
  have m: "map_of L' s = Some (mention_count (jobs @ [job]) s)" if "s \<in> set (map fst L')" for s
  proof -
    have tech: "s \<in> set techSkills" using that s by simp
    have eq: "map_of L' s =
        (if mentions_skill job s then Some (get_or_zero L s + 1) else map_of L s)"
      unfolding L'_eq mentions_skill_def
      using skills_loop_map_of [OF distinct_techSkills, of "posting_text job" L s] tech by simp
    show ?thesis
    proof (cases "s \<in> set (map fst L)")
      case True
      then have "map_of L s = Some (mention_count jobs s)" by (rule mL)
      then show ?thesis
        unfolding eq mention_count_snoc by (simp add: get_or_zero_def)
    next
      case False
      then have none: "map_of L s = None" by (simp add: map_of_eq_None_iff)
      have zero: "mention_count jobs s = 0" using False tech unfolding sL by simp
      have "s \<in> set new" using that False unfolding keys by auto
      then have "mentions_skill job s" unfolding new_set by simp
      then show ?thesis
        unfolding eq mention_count_snoc using none zero by (simp add: get_or_zero_def)
    qed
  qed
  have old_first: "first_mention (jobs @ [job]) x = first_mention jobs x"
    if "x \<in> set (map fst L)" for x
    using that unfolding sL by (simp add: first_mention_snoc_old)
  have new_first: "first_mention (jobs @ [job]) y = length jobs" if "y \<in> set new" for y
    using that unfolding new_set by (simp add: first_mention_snoc_new)
  have o1: "sorted_wrt (first_before (jobs @ [job])) (map fst L)"
    using oL
  proof (rule sorted_wrt_mono_rel [rotated])
    fix x y
    assume "x \<in> set (map fst L)" "y \<in> set (map fst L)" "first_before jobs x y"
    then show "first_before (jobs @ [job]) x y"
      unfolding first_before_def by (simp add: old_first)
  qed
  have "sorted_wrt (\<lambda>a b. catalog_index a < catalog_index b) new"
    unfolding new_def by (rule sorted_wrt_filter [OF catalog_index_sorted])
  then have o2: "sorted_wrt (first_before (jobs @ [job])) new"
  proof (rule sorted_wrt_mono_rel [rotated])
    fix x y
    assume "x \<in> set new" "y \<in> set new" "catalog_index x < catalog_index y"
    then show "first_before (jobs @ [job]) x y"
      unfolding first_before_def by (simp add: new_first)
  qed
  have o3: "first_before (jobs @ [job]) x y" if "x \<in> set (map fst L)" "y \<in> set new" for x y
  proof -
    have "first_mention jobs x < length jobs"
      using that(1) unfolding sL by (simp add: first_mention_lt)
    then show ?thesis
      unfolding first_before_def using old_first [OF that(1)] new_first [OF that(2)] by simp
  qed
  have o: "sorted_wrt (first_before (jobs @ [job])) (map fst L')"
    unfolding keys sorted_wrt_append using o1 o2 o3 by blast
  show ?case
    using d s m o unfolding L'_def by blast
qed

lemma ranks_before_irrefl: "\<not> ranks_before jobs a a"
  unfolding ranks_before_def first_before_def by simp

lemma ranks_before_asym: "ranks_before jobs a b \<Longrightarrow> \<not> ranks_before jobs b a"
  unfolding ranks_before_def first_before_def by auto

lemma sorted_wrt_unique:
  assumes "\<And>a. \<not> R a a" and "\<And>a b. R a b \<Longrightarrow> \<not> R b a"
  shows "sorted_wrt R xs \<Longrightarrow> sorted_wrt R ys \<Longrightarrow> set xs = set ys \<Longrightarrow> xs = ys"
proof (induction xs arbitrary: ys)
  case Nil
  then show ?case by simp
next
  case (Cons x xs)
  obtain y ys' where ys: "ys = y # ys'" using Cons.prems(3) by (cases ys) auto
  have xy: "x = y"
  proof (rule ccontr)
    assume "x \<noteq> y"
    then have "x \<in> set ys'" and "y \<in> set xs" using Cons.prems(3) ys by auto
    then have "R y x" and "R x y" using Cons.prems(1,2) ys by auto
    then show False using assms(2) by blast
  qed
  have "x \<notin> set xs" using Cons.prems(1) assms(1) by auto
  moreover have "y \<notin> set ys'" using Cons.prems(2) ys assms(1) by auto
  ultimately have "set xs = set ys'" using Cons.prems(3) ys xy by auto
  then have "xs = ys'" using Cons.IH Cons.prems(1,2) ys by simp
  then show ?case using xy ys by simp
qed

lemma ranking_unique:
  "sorted_wrt (ranks_before jobs) xs \<Longrightarrow> sorted_wrt (ranks_before jobs) ys \<Longrightarrow>
   set xs = set ys \<Longrightarrow> xs = ys"
  by (rule sorted_wrt_unique [OF ranks_before_irrefl ranks_before_asym])

text \<open>
  C9, as the code has it. The result is the first ten entries of the ranking of the
  vocabulary terms that some posting mentions in its lower-cased title and description:
  the ranking lists each such term once, a term with more mentions before a term with
  fewer, and terms with equally many mentions in the order in which the postings first
  mention them, terms first mentioned by the same posting in the order of the vocabulary.
  By \<open>ranking_unique\<close> there is only one such ranking.
\<close>

theorem extractTopSkills_ranking:
  "\<exists>ranked. extractTopSkills jobs = take 10 ranked \<and> distinct ranked \<and>
     set ranked = {skill \<in> set techSkills. 0 < mention_count jobs skill} \<and>
     sorted_wrt (ranks_before jobs) ranked"
proof -
  define L where "L = jobs_loop jobs []"
  define f where "f = (\<lambda>(skill :: string, n :: nat). - int n)"
  define ranked where "ranked = map fst (sort_key f L)"
  have dL: "distinct (map fst L)"
    and sL: "set (map fst L) = {s \<in> set techSkills. 0 < mention_count jobs s}"
    and mL: "\<And>s. s \<in> set (map fst L) \<Longrightarrow> map_of L s = Some (mention_count jobs s)"
    and oL: "sorted_wrt (first_before jobs) (map fst L)"
    using jobs_loop_invariant [of jobs] unfolding L_def by blast+
  have count: "n = mention_count jobs s" if "(s, n) \<in> set L" for s n
  proof -
    have "map_of L s = Some n" using that dL by simp
    moreover have "s \<in> set (map fst L)" using that by force
    ultimately show ?thesis using mL by simp
  qed
  have 1: "extractTopSkills jobs = take 10 ranked"
    unfolding extractTopSkills_def ranked_def L_def f_def by (simp add: take_map)
  have 2: "distinct ranked"
    unfolding ranked_def using dL by (simp add: distinct_map)
  have 3: "set ranked = {s \<in> set techSkills. 0 < mention_count jobs s}"
    unfolding ranked_def using sL by simp
  have "sorted_wrt (\<lambda>a b. first_before jobs (fst a) (fst b)) L"
    using oL by (simp add: sorted_wrt_map)
  then have "sorted_wrt (\<lambda>a b. f a < f b \<or> (f a = f b \<and> first_before jobs (fst a) (fst b)))
      (sort_key f L)"
    by (rule sort_key_stable_wrt)
  then have "sorted_wrt (\<lambda>a b. ranks_before jobs (fst a) (fst b)) (sort_key f L)"
  proof (rule sorted_wrt_mono_rel [rotated])
    fix a b
    assume a: "a \<in> set (sort_key f L)" and b: "b \<in> set (sort_key f L)"
      and r: "f a < f b \<or> (f a = f b \<and> first_before jobs (fst a) (fst b))"
    have ca: "snd a = mention_count jobs (fst a)" using a count [of "fst a" "snd a"] by simp
    have cb: "snd b = mention_count jobs (fst b)" using b count [of "fst b" "snd b"] by simp
    have fa: "f a = - int (mention_count jobs (fst a))"
      unfolding f_def using ca by (simp add: case_prod_beta)
    have fb: "f b = - int (mention_count jobs (fst b))"
      unfolding f_def using cb by (simp add: case_prod_beta)
    show "ranks_before jobs (fst a) (fst b)"
      using r unfolding fa fb ranks_before_def by auto
  qed
  then have 4: "sorted_wrt (ranks_before jobs) ranked"
    unfolding ranked_def by (simp add: sorted_wrt_map)
  show ?thesis using 1 2 3 4 by blast
qed

text \<open>
  The claim as written breaks ties by the order of the vocabulary. In the postings
  ``Python developer'' and ``React developer'' each of the two terms is mentioned once, and
  React stands before Python in the vocabulary; the result lists Python first, because
  the first posting mentions it.
\<close>

theorem extractTopSkills_tie_counterexample:
  "extractTopSkills [posting ''Python developer'', posting ''React developer''] =
     [''Python'', ''React''] \<and>
   mention_count [posting ''Python developer'', posting ''React developer''] ''Python'' =
   mention_count [posting ''Python developer'', posting ''React developer''] ''React'' \<and>
   catalog_index ''React'' < catalog_index ''Python''"
  by code_simp

end
